theory Spec2Isabelle
  imports Main "HOL-Library.Word" "HOL-Library.Sublist"
begin

unbundle bit_operations_syntax

section \<open>Machine types\<close>

text \<open>
  The C sources work on \<^verbatim>\<open>uint8_t\<close>, \<^verbatim>\<open>uint16_t\<close> and \<^verbatim>\<open>uint64_t\<close> values. They are
  modelled as words of that width. A C buffer given as a pointer with a length is a list
  of bytes; \<^verbatim>\<open>size_t\<close> lengths and offsets are natural numbers (no buffer of this
  program comes near \<open>2 ^ 64\<close> bytes).
\<close>

type_synonym u8 = "8 word"
type_synonym u16 = "16 word"
type_synonym u64 = "64 word"

section \<open>Packet/CPacket.c\<close>

subsection \<open>xor_nonce_with_seq\<close>

text \<open>
  The nonce is modified in place; the model returns the modified buffer. Each line
  \<^verbatim>\<open>nonce[k] ^= (uint8_t)(seqNum >> s)\<close> is one list update.
\<close>

definition xor_nonce_with_seq :: "u8 list \<Rightarrow> u64 \<Rightarrow> u8 list" where
  "xor_nonce_with_seq nonce seqNum =
     (let nonce = nonce[4 := nonce ! 4 XOR ucast (drop_bit 56 seqNum)];
          nonce = nonce[5 := nonce ! 5 XOR ucast (drop_bit 48 seqNum)];
          nonce = nonce[6 := nonce ! 6 XOR ucast (drop_bit 40 seqNum)];
          nonce = nonce[7 := nonce ! 7 XOR ucast (drop_bit 32 seqNum)];
          nonce = nonce[8 := nonce ! 8 XOR ucast (drop_bit 24 seqNum)];
          nonce = nonce[9 := nonce ! 9 XOR ucast (drop_bit 16 seqNum)];
          nonce = nonce[10 := nonce ! 10 XOR ucast (drop_bit 8 seqNum)];
          nonce = nonce[11 := nonce ! 11 XOR ucast seqNum]
      in nonce)"

subsection \<open>parse_tls_header\<close>

text \<open>
  The C function returns 1 and writes both output parameters, or returns 0 and writes
  nothing. The model returns the return code together with the values written, if any:
  content type and record length.
\<close>

definition parse_tls_header :: "u8 list \<Rightarrow> int \<times> (u8 \<times> u16) option" where
  "parse_tls_header buffer =
     (if length buffer < 5 then (0, None)
      else (1, Some (buffer ! 0, push_bit 8 (ucast (buffer ! 3) :: u16) OR ucast (buffer ! 4))))"

subsection \<open>find_tls13_content_end and tls13_unwrap_content\<close>

text \<open>
  \<^verbatim>\<open>while (i >= 0 && data[i] == 0) i--;\<close> with \<open>i\<close> a signed index, as in the source.
\<close>

function scan_back :: "u8 list \<Rightarrow> int \<Rightarrow> int" where
  "scan_back data i = (if i \<ge> 0 \<and> data ! nat i = 0 then scan_back data (i - 1) else i)"
  by pat_completeness auto
termination
  by (relation "measure (\<lambda>(data, i). nat (i + 1))") auto

declare scan_back.simps [simp del]

text \<open>
  Both functions return an \<^verbatim>\<open>ssize_t\<close> and write \<^verbatim>\<open>*outContentType\<close> on success only.
  The model returns the return value and the byte written, \<open>None\<close> when nothing is written.
\<close>

definition find_tls13_content_end :: "u8 list \<Rightarrow> int \<times> u8 option" where
  "find_tls13_content_end data =
     (let len = length data in
      if len = 0 then (- 1, None)
      else
        let i = int len - 1 in
        if len \<ge> 8 \<and> data ! (len - 1) \<noteq> 0 then (int len - 1, Some (data ! (len - 1)))
        else
          let i = scan_back data i in
          if i < 0 then (- 1, None)
          else (i, Some (data ! nat i)))"

definition tls13_unwrap_content :: "u8 list \<Rightarrow> int \<times> u8 option" where
  "tls13_unwrap_content data =
     (if length data = 0 then (- 1, None)
      else
        let (contentEnd, outContentType) = find_tls13_content_end data in
        if contentEnd < 0 then (- 1, outContentType)
        else (contentEnd, outContentType))"

section \<open>VLESS/CVLESS.c\<close>

definition VLESS_ADDR_IPV4 :: u8 where "VLESS_ADDR_IPV4 = 0x01"
definition VLESS_ADDR_DOMAIN :: u8 where "VLESS_ADDR_DOMAIN = 0x02"
definition VLESS_ADDR_IPV6 :: u8 where "VLESS_ADDR_IPV6 = 0x03"

subsection \<open>build_vless_request_header\<close>

text \<open>
  \<^verbatim>\<open>memcpy(dst + off, src, n)\<close> on the caller's buffer, byte by byte.
\<close>

fun memcpy :: "u8 list \<Rightarrow> nat \<Rightarrow> u8 list \<Rightarrow> nat \<Rightarrow> u8 list" where
  "memcpy dst off src 0 = dst"
| "memcpy dst off src (Suc n) = (memcpy dst off src n)[off + n := src ! n]"

text \<open>
  The function writes into the caller's \<open>buffer\<close> at a running \<open>offset\<close> and returns the
  final offset; the model returns the buffer after the writes together with that offset.
  The source relies on the caller for a buffer that is long enough and for \<open>uuid\<close> and
  \<open>address\<close> to hold the bytes that are read; the theorems below state these as
  hypotheses.
\<close>

definition build_vless_request_header ::
  "u8 list \<Rightarrow> u8 list \<Rightarrow> u8 \<Rightarrow> u16 \<Rightarrow> u8 \<Rightarrow> u8 list \<Rightarrow> nat \<Rightarrow> u8 list \<times> nat" where
  "build_vless_request_header buffer uuid command port addressType address addressLen =
     (let offset = 0;
          buffer = buffer[offset := 0x00]; offset = offset + 1;
          buffer = memcpy buffer offset uuid 16; offset = offset + 16;
          buffer = buffer[offset := 0x00]; offset = offset + 1;
          buffer = buffer[offset := command]; offset = offset + 1;
          buffer = buffer[offset := ucast (drop_bit 8 port)]; offset = offset + 1;
          buffer = buffer[offset := ucast (port AND 0xFF)]; offset = offset + 1;
          buffer = buffer[offset := addressType]; offset = offset + 1
      in
        if addressType = VLESS_ADDR_DOMAIN then
          let buffer = buffer[offset := word_of_nat addressLen]; offset = offset + 1;
              buffer = memcpy buffer offset address addressLen; offset = offset + addressLen
          in (buffer, offset)
        else if addressType = VLESS_ADDR_IPV4 then
          let buffer = memcpy buffer offset address 4; offset = offset + 4
          in (buffer, offset)
        else if addressType = VLESS_ADDR_IPV6 then
          let buffer = memcpy buffer offset address 16; offset = offset + 16
          in (buffer, offset)
        else (buffer, offset))"

subsection \<open>The C library's strtol\<close>

text \<open>
  \<^verbatim>\<open>strtol\<close> belongs to the C library, not to this program. It is modelled as ISO C
  specifies it: leading white space is skipped, one sign is accepted, base 16 accepts a
  \<^verbatim>\<open>0x\<close> prefix when a hexadecimal digit follows, then the longest run of digits of the
  base is read. The result saturates at the bounds of a 64-bit \<^verbatim>\<open>long\<close>. When no digit
  is read the value is 0 and the end pointer is the start pointer.

  A NUL-terminated string is the list of its characters before the NUL, and a pointer
  into it is the remaining suffix: \<^verbatim>\<open>*p == '\0'\<close> is \<open>p = []\<close>, and two pointers into
  the same string are equal exactly when the suffixes are.
\<close>

definition isspace :: "char \<Rightarrow> bool" where
  "isspace c \<longleftrightarrow> c \<in> set [CHR '' '', CHR 0x09, CHR 0x0A, CHR 0x0B, CHR 0x0C, CHR 0x0D]"

definition digit_value :: "char \<Rightarrow> nat option" where
  "digit_value c =
     (let n = (of_char c :: nat) in
      if 48 \<le> n \<and> n \<le> 57 then Some (n - 48)
      else if 97 \<le> n \<and> n \<le> 122 then Some (n - 87)
      else if 65 \<le> n \<and> n \<le> 90 then Some (n - 55)
      else None)"

definition is_digit :: "nat \<Rightarrow> char \<Rightarrow> bool" where
  "is_digit base c = (case digit_value c of Some d \<Rightarrow> d < base | None \<Rightarrow> False)"

fun strtol_digits :: "nat \<Rightarrow> int \<Rightarrow> string \<Rightarrow> int \<times> string" where
  "strtol_digits base acc [] = (acc, [])"
| "strtol_digits base acc (c # cs) =
     (if is_digit base c
      then strtol_digits base (acc * int base + int (the (digit_value c))) cs
      else (acc, c # cs))"

definition LONG_MAX :: int where "LONG_MAX = 2 ^ 63 - 1"
definition LONG_MIN :: int where "LONG_MIN = - (2 ^ 63)"

definition skip_sign :: "string \<Rightarrow> string" where
  "skip_sign s = (if s \<noteq> [] \<and> (hd s = CHR ''-'' \<or> hd s = CHR ''+'') then tl s else s)"

definition skip_0x :: "nat \<Rightarrow> string \<Rightarrow> string" where
  "skip_0x base s =
     (case s of
        z # x # h # _ \<Rightarrow>
          if base = 16 \<and> z = CHR ''0'' \<and> (x = CHR ''x'' \<or> x = CHR ''X'') \<and> is_digit 16 h
          then drop 2 s else s
      | _ \<Rightarrow> s)"

definition strtol :: "string \<Rightarrow> nat \<Rightarrow> int \<times> string" where
  "strtol nptr base =
     (let s = dropWhile isspace nptr;
          neg = (s \<noteq> [] \<and> hd s = CHR ''-'');
          s = skip_0x base (skip_sign s)
      in
        if s = [] \<or> \<not> is_digit base (hd s) then (0, nptr)
        else
          let (v, endp) = strtol_digits base 0 s;
              v = (if neg then - v else v)
          in (max LONG_MIN (min LONG_MAX v), endp))"

definition c_str :: "string \<Rightarrow> string" where
  "c_str buf = takeWhile (\<lambda>c. c \<noteq> CHR 0x00) buf"

text \<open>The end pointer points into the string that starts at the start pointer.\<close>

lemma strtol_digits_suffix: "suffix (snd (strtol_digits base acc s)) s"
  by (induction s arbitrary: acc) (auto intro: suffix_ConsI)

lemma skip_sign_suffix: "suffix (skip_sign s) s"
  by (simp add: skip_sign_def suffix_tl)

lemma skip_0x_suffix: "suffix (skip_0x base s) s"
  by (simp add: skip_0x_def suffix_drop suffix_ConsI split: list.splits)

lemma strtol_suffix: "suffix (snd (strtol nptr base)) nptr"
proof -
  define s where "s = skip_0x base (skip_sign (dropWhile isspace nptr))"
  have "suffix s (dropWhile isspace nptr)"
    unfolding s_def using skip_0x_suffix skip_sign_suffix suffix_order.trans by blast
  then have s: "suffix s nptr"
    using suffix_dropWhile suffix_order.trans by blast
  have "suffix (snd (strtol_digits base 0 s)) nptr"
    using strtol_digits_suffix s suffix_order.trans by blast
  then show ?thesis
    unfolding strtol_def Let_def s_def[symmetric]
    by (auto split: prod.splits)
qed

lemma strtol_advances:
  assumes "(val, endp) = strtol ptr base" and "ptr \<noteq> endp"
  shows "length endp < length ptr"
proof -
  have "suffix endp ptr"
    using strtol_suffix [of ptr base] assms(1) [symmetric] by simp
  then obtain pre where "ptr = pre @ endp"
    by (auto simp: suffix_def)
  with assms(2) show ?thesis
    by (cases pre) auto
qed

subsection \<open>parse_ipv4_address\<close>

text \<open>
  The loop \<^verbatim>\<open>while (count < 4)\<close> over the NUL-terminated copy \<open>buf\<close>. \<open>None\<close> is
  \<^verbatim>\<open>return 0\<close> from inside the loop; \<open>Some\<close> carries \<open>parts\<close> and \<open>count\<close> at the
  loop's exit (by \<^verbatim>\<open>break\<close> or by its condition).
\<close>

function ipv4_loop :: "string \<Rightarrow> int list \<Rightarrow> nat \<Rightarrow> (int list \<times> nat) option" where
  "ipv4_loop ptr parts count =
     (if count < 4 then
        (case strtol ptr 10 of (val, endp) \<Rightarrow>
           if val < 0 \<or> val > 255 then None
           else if ptr = endp then None
           else
             let parts = parts[count := val]; count = count + 1 in
             if endp = [] then Some (parts, count)
             else if hd endp \<noteq> CHR ''.'' then None
             else ipv4_loop (tl endp) parts count)
      else Some (parts, count))"
  by pat_completeness auto
termination
  by (relation "measure (\<lambda>(ptr, parts, count). 4 - count)") auto

declare ipv4_loop.simps [simp del]

text \<open>
  The result is \<open>None\<close> for \<^verbatim>\<open>return 0\<close> (nothing is written to \<^verbatim>\<open>outBytes\<close>) and
  \<open>Some\<close> of the four bytes written for \<^verbatim>\<open>return 1\<close>. \<open>str\<close> holds the \<open>strLen\<close>
  characters of the input.
\<close>

definition parse_ipv4_address :: "string \<Rightarrow> u8 list option" where
  "parse_ipv4_address str =
     (let strLen = length str in
      if strLen = 0 \<or> strLen > 15 then None
      else
        let buf = c_str str in
        case ipv4_loop buf [0, 0, 0, 0] 0 of
          None \<Rightarrow> None
        | Some (parts, count) \<Rightarrow>
            if count \<noteq> 4 then None
            else Some [word_of_int (parts ! 0), word_of_int (parts ! 1),
                       word_of_int (parts ! 2), word_of_int (parts ! 3)])"

subsection \<open>parse_ipv6_address\<close>

text \<open>
  The loop \<^verbatim>\<open>while (*ptr && partCount < 8)\<close>; \<open>doubleColonPos\<close> is \<open>-1\<close> until a
  \<^verbatim>\<open>::\<close> is met.
\<close>

function ipv6_loop ::
  "string \<Rightarrow> u16 list \<Rightarrow> nat \<Rightarrow> int \<Rightarrow> (u16 list \<times> nat \<times> int) option" where
  "ipv6_loop ptr parts partCount doubleColonPos =
     (if ptr \<noteq> [] \<and> partCount < 8 then
        if hd ptr = CHR '':'' then
          if tl ptr \<noteq> [] \<and> hd (tl ptr) = CHR '':'' then
            if doubleColonPos \<ge> 0 then None
            else if drop 2 ptr = [] then Some (parts, partCount, int partCount)
            else ipv6_loop (drop 2 ptr) parts partCount (int partCount)
          else ipv6_loop (tl ptr) parts partCount doubleColonPos
        else
          (case strtol ptr 16 of (val, endp) \<Rightarrow>
             if val < 0 \<or> val > 0xFFFF then None
             else if ptr = endp then None
             else ipv6_loop endp (parts[partCount := word_of_int val]) (partCount + 1)
                    doubleColonPos)
      else Some (parts, partCount, doubleColonPos))"
  by pat_completeness auto
termination
  by (relation "measure (\<lambda>(ptr, parts, partCount, doubleColonPos). length ptr)")
    (auto intro: strtol_advances)

declare ipv6_loop.simps [simp del]

text \<open>
  The two loops of the \<^verbatim>\<open>::\<close> expansion:
  \<^verbatim>\<open>for (int i = 7; i >= doubleColonPos + missing; i--) parts[i] = parts[i - missing];\<close>
  and
  \<^verbatim>\<open>for (int i = doubleColonPos; i < doubleColonPos + missing; i++) parts[i] = 0;\<close>
\<close>

function shift_parts :: "u16 list \<Rightarrow> int \<Rightarrow> int \<Rightarrow> int \<Rightarrow> u16 list" where
  "shift_parts parts i lo missing =
     (if i \<ge> lo then shift_parts (parts[nat i := parts ! nat (i - missing)]) (i - 1) lo missing
      else parts)"
  by pat_completeness auto
termination
  by (relation "measure (\<lambda>(parts, i, lo, missing). nat (i - lo + 1))") auto

declare shift_parts.simps [simp del]

function zero_parts :: "u16 list \<Rightarrow> int \<Rightarrow> int \<Rightarrow> u16 list" where
  "zero_parts parts i hi =
     (if i < hi then zero_parts (parts[nat i := 0]) (i + 1) hi else parts)"
  by pat_completeness auto
termination
  by (relation "measure (\<lambda>(parts, i, hi). nat (hi - i))") auto

declare zero_parts.simps [simp del]

text \<open>
  \<^verbatim>\<open>outBytes[i * 2] = (uint8_t)(parts[i] >> 8); outBytes[i * 2 + 1] = (uint8_t)(parts[i] & 0xFF)\<close>
  for \<open>i\<close> from 0 to 7.
\<close>

definition parts_to_bytes :: "u16 list \<Rightarrow> u8 list" where
  "parts_to_bytes parts =
     concat (map (\<lambda>i. [ucast (drop_bit 8 (parts ! i)), ucast (parts ! i AND 0xFF)]) [0..<8])"

definition parse_ipv6_address :: "string \<Rightarrow> u8 list option" where
  "parse_ipv6_address str =
     (let strLen = length str in
      if strLen = 0 \<or> strLen > 45 then None
      else
        let (start, len) =
              (if strLen \<ge> 2 \<and> str ! 0 = CHR ''['' \<and> str ! (strLen - 1) = CHR '']''
               then (1, strLen - 2) else (0, strLen))
        in
        if len = 0 \<or> len > 39 then None
        else
          let buf = c_str (take len (drop start str)) in
          case ipv6_loop buf (replicate 8 0) 0 (- 1) of
            None \<Rightarrow> None
          | Some (parts, partCount, doubleColonPos) \<Rightarrow>
              if doubleColonPos \<ge> 0 then
                let missing = 8 - int partCount in
                if missing < 0 then None
                else
                  let parts = shift_parts parts 7 (doubleColonPos + missing) missing;
                      parts = zero_parts parts doubleColonPos (doubleColonPos + missing)
                  in Some (parts_to_bytes parts)
              else if partCount \<noteq> 8 then None
              else Some (parts_to_bytes parts))"

subsection \<open>parse_vless_address\<close>

text \<open>
  \<open>None\<close> is \<^verbatim>\<open>return 0\<close>; \<open>Some\<close> carries \<^verbatim>\<open>*outType\<close>, the bytes written to
  \<^verbatim>\<open>outBytes\<close> and \<^verbatim>\<open>*outLen\<close>. The characters of a domain are copied as bytes.
\<close>

definition parse_vless_address :: "string \<Rightarrow> (u8 \<times> u8 list \<times> nat) option" where
  "parse_vless_address str =
     (case parse_ipv4_address str of
        Some outBytes \<Rightarrow> Some (VLESS_ADDR_IPV4, outBytes, 4)
      | None \<Rightarrow>
          (case parse_ipv6_address str of
             Some outBytes \<Rightarrow> Some (VLESS_ADDR_IPV6, outBytes, 16)
           | None \<Rightarrow>
               if length str > 255 then None
               else Some (VLESS_ADDR_DOMAIN, map of_char str, length str)))"

section \<open>lwip/lwip_bridge.c\<close>

subsection \<open>Packet input\<close>

text \<open>
  An \<^verbatim>\<open>ip_addr_t\<close> is a type tag with the address bytes in network order.
\<close>

datatype ip_addr = IPADDR_V4 "u8 list" | IPADDR_V6 "u8 list"

text \<open>
  The file-scope variables that \<open>lwip_bridge_input\<close> writes, and a log of the calls of
  \<^verbatim>\<open>tun_netif.input\<close>, oldest first. The engine behind that call is not part of the
  sources; an entry of the log is the packet handed over together with the two scratch
  variables as they stand at that moment, which is what \<^verbatim>\<open>udp_recv_cb\<close> reads during
  the call.
\<close>

record input_state =
  s_current_udp_dst_port :: u16
  s_current_udp_dst_ip :: ip_addr
  netif_input_calls :: "(u8 list \<times> u16 \<times> ip_addr) list"

text \<open>
  The end of \<open>lwip_bridge_input\<close>, from \<^verbatim>\<open>pbuf_alloc\<close> on. Whether the allocation
  succeeds is the engine's matter and is a parameter. The pbuf holds \<^verbatim>\<open>(u16_t)len\<close>
  bytes of the packet. An error returned by the engine's input routine only frees the
  pbuf and is logged.
\<close>

definition hand_to_engine :: "u8 list \<Rightarrow> int \<Rightarrow> bool \<Rightarrow> input_state \<Rightarrow> input_state" where
  "hand_to_engine pkt len pbuf_ok st =
     (if \<not> pbuf_ok then st
      else st\<lparr>netif_input_calls := netif_input_calls st @
             [(take (nat (len mod 65536)) pkt, s_current_udp_dst_port st,
               s_current_udp_dst_ip st)]\<rparr>)"

text \<open>
  \<open>data\<close> is \<open>None\<close> for a null pointer and \<open>len\<close> is the C \<^verbatim>\<open>int\<close>. The source
  reads \<open>pkt\<close> below \<open>len\<close> only.
\<close>

definition lwip_bridge_input ::
  "u8 list option \<Rightarrow> int \<Rightarrow> bool \<Rightarrow> input_state \<Rightarrow> input_state" where
  "lwip_bridge_input data len pbuf_ok st =
     (case data of
        None \<Rightarrow> st
      | Some pkt \<Rightarrow>
          if len \<le> 0 then st
          else
            let version = drop_bit 4 (pkt ! 0) AND 0x0F in
            if version = 4 \<and> len \<ge> 20 then
              let proto = pkt ! 9;
                  ihl = (pkt ! 0 AND 0x0F) * 4;
                  st = (if proto = 17 \<and> len \<ge> uint ihl + 8
                        then st\<lparr>s_current_udp_dst_port :=
                                  push_bit 8 (ucast (pkt ! (unat ihl + 2)))
                                    OR ucast (pkt ! (unat ihl + 3)),
                                s_current_udp_dst_ip := IPADDR_V4 (take 4 (drop 16 pkt))\<rparr>
                        else st)
              in hand_to_engine pkt len pbuf_ok st
            else if version = 6 \<and> len \<ge> 40 then
              let proto = pkt ! 6;
                  st = (if proto = 17 \<and> len \<ge> 48
                        then st\<lparr>s_current_udp_dst_port :=
                                  push_bit 8 (ucast (pkt ! 42)) OR ucast (pkt ! 43),
                                s_current_udp_dst_ip := IPADDR_V6 (take 16 (drop 24 pkt))\<rparr>
                        else st)
              in hand_to_engine pkt len pbuf_ok st
            else st)"

subsection \<open>TCP flows\<close>

text \<open>
  A pcb is addressed by a pointer and an external handle is an opaque pointer; both are
  numbers here, and a null pointer is \<open>None\<close>. Of the engine's pcb the bridge uses the
  callback argument and the three callbacks, which are either the bridge's own function
  (\<open>True\<close>) or null (\<open>False\<close>).
\<close>

type_synonym pcb_ptr = nat
type_synonym handle = nat

datatype err_t = ERR_OK | ERR_MEM | ERR_ABRT

record tcp_pcb =
  callback_arg :: "handle option"
  recv :: bool
  sent :: bool
  errf :: bool

text \<open>
  The state of the bridge and of the engine's TCP lists: whether the relay layer has
  registered its accept and error functions, the allocated pcbs, the engine's lists of
  active and TIME-WAIT pcbs (head first), the four listeners, the interface, and the
  calls of \<^verbatim>\<open>s_tcp_err_fn(conn, err)\<close> made so far, oldest first.
\<close>

record tcp_state =
  s_tcp_accept_fn :: bool
  s_tcp_err_fn :: bool
  pcbs :: "pcb_ptr \<Rightarrow> tcp_pcb option"
  tcp_active_pcbs :: "pcb_ptr list"
  tcp_tw_pcbs :: "pcb_ptr list"
  tcp_listen_pcb_v4 :: "pcb_ptr option"
  tcp_listen_pcb_v6 :: "pcb_ptr option"
  udp_listen_pcb_v4 :: "pcb_ptr option"
  udp_listen_pcb_v6 :: "pcb_ptr option"
  netif_up :: bool
  err_calls :: "(handle \<times> err_t) list"

definition tcp_err_cb :: "handle option \<Rightarrow> err_t \<Rightarrow> tcp_state \<Rightarrow> tcp_state" where
  "tcp_err_cb arg err st =
     (if arg \<noteq> None \<and> s_tcp_err_fn st
      then st\<lparr>err_calls := err_calls st @ [(the arg, err)]\<rparr>
      else st)"

text \<open>
  Modelled from the spec: the engine's setters \<^verbatim>\<open>tcp_arg\<close>, \<^verbatim>\<open>tcp_recv\<close>,
  \<^verbatim>\<open>tcp_sent\<close> and \<^verbatim>\<open>tcp_err\<close> are not among the sources. By section 4.2 the
  handle returned on accept "is bound 1:1 to the engine-level flow" and "subsequent
  recv/sent/err events for that flow are routed to this external handle": each setter
  stores its argument in the pcb it is given.
\<close>

definition set_pcb :: "pcb_ptr \<Rightarrow> (tcp_pcb \<Rightarrow> tcp_pcb) \<Rightarrow> tcp_state \<Rightarrow> tcp_state" where
  "set_pcb p f st = st\<lparr>pcbs := (pcbs st)(p := map_option f (pcbs st p))\<rparr>"

definition tcp_arg :: "pcb_ptr \<Rightarrow> handle option \<Rightarrow> tcp_state \<Rightarrow> tcp_state" where
  "tcp_arg p arg st = set_pcb p (\<lambda>pcb. pcb\<lparr>callback_arg := arg\<rparr>) st"

definition tcp_recv :: "pcb_ptr \<Rightarrow> bool \<Rightarrow> tcp_state \<Rightarrow> tcp_state" where
  "tcp_recv p cb st = set_pcb p (\<lambda>pcb. pcb\<lparr>recv := cb\<rparr>) st"

definition tcp_sent :: "pcb_ptr \<Rightarrow> bool \<Rightarrow> tcp_state \<Rightarrow> tcp_state" where
  "tcp_sent p cb st = set_pcb p (\<lambda>pcb. pcb\<lparr>sent := cb\<rparr>) st"

definition tcp_err :: "pcb_ptr \<Rightarrow> bool \<Rightarrow> tcp_state \<Rightarrow> tcp_state" where
  "tcp_err p cb st = set_pcb p (\<lambda>pcb. pcb\<lparr>errf := cb\<rparr>) st"

text \<open>
  Modelled from the spec: the engine's \<^verbatim>\<open>tcp_pcb_remove\<close> and \<^verbatim>\<open>tcp_free\<close> are not
  among the sources. By section 4.2, connections in passive teardown "are discarded
  silently without notification": the pcb leaves the engine's lists and is freed, and no
  callback runs.
\<close>

definition tcp_pcb_remove_free :: "pcb_ptr \<Rightarrow> tcp_state \<Rightarrow> tcp_state" where
  "tcp_pcb_remove_free p st =
     st\<lparr>tcp_active_pcbs := removeAll p (tcp_active_pcbs st),
        tcp_tw_pcbs := removeAll p (tcp_tw_pcbs st),
        pcbs := (pcbs st)(p := None)\<rparr>"

text \<open>
  Modelled from the spec: the engine's \<^verbatim>\<open>tcp_abort\<close> is not among the sources. By
  section 4.2 the error event is "fired when the underlying engine aborts or errors the
  connection; the engine-level resource is already invalid by the time this fires", and
  by section 5 an abort takes effect at once, "the engine resource is destroyed before
  the call returns". The comments of \<open>lwip_bridge_shutdown\<close> and \<open>tcp_err_cb\<close> say the
  same: \<^verbatim>\<open>tcp_abort()\<close> removes the pcb from \<^verbatim>\<open>tcp_active_pcbs\<close>, frees it and then
  calls the pcb's error callback, if it has one, with the pcb's callback argument.
\<close>

definition tcp_abort :: "pcb_ptr \<Rightarrow> tcp_state \<Rightarrow> tcp_state" where
  "tcp_abort p st =
     (let pcb = pcbs st p;
          st = tcp_pcb_remove_free p st
      in case pcb of
           None \<Rightarrow> st
         | Some pcb \<Rightarrow> if errf pcb then tcp_err_cb (callback_arg pcb) ERR_ABRT st else st)"

text \<open>
  Modelled from the spec: the engine's \<^verbatim>\<open>tcp_close\<close> is not among the sources. By
  section 4.2 a close is "graceful; falls back to abort if graceful close fails", and by
  section 5 a close "may keep the resource alive briefly in a passive teardown state
  handled without further notification". What the engine does with the pcb is its own
  decision and a parameter here: the close fails and leaves the pcb as it is, or it
  succeeds and the pcb is freed at once, stays on the active list while the connection
  winds down, or moves to the TIME-WAIT list. A close runs no callback.
\<close>

datatype close_outcome = Close_Fails | Close_Frees | Close_Stays_Active | Close_Time_Wait

fun tcp_close :: "pcb_ptr \<Rightarrow> close_outcome \<Rightarrow> tcp_state \<Rightarrow> err_t \<times> tcp_state" where
  "tcp_close p Close_Fails st = (ERR_MEM, st)"
| "tcp_close p Close_Frees st = (ERR_OK, tcp_pcb_remove_free p st)"
| "tcp_close p Close_Stays_Active st = (ERR_OK, st)"
| "tcp_close p Close_Time_Wait st =
     (ERR_OK, st\<lparr>tcp_active_pcbs := removeAll p (tcp_active_pcbs st),
                 tcp_tw_pcbs := p # tcp_tw_pcbs st\<rparr>)"

text \<open>
  \<open>tcp_accept_cb\<close>: \<open>conn\<close> is what the relay layer's accept function returns for the new
  connection, a handle or null.
\<close>

definition tcp_accept_cb ::
  "pcb_ptr option \<Rightarrow> handle option \<Rightarrow> tcp_state \<Rightarrow> err_t \<times> tcp_state" where
  "tcp_accept_cb newpcb conn st =
     (if \<not> s_tcp_accept_fn st \<or> newpcb = None then (ERR_ABRT, st)
      else if conn = None then (ERR_ABRT, tcp_abort (the newpcb) st)
      else
        let st = tcp_arg (the newpcb) conn st;
            st = tcp_recv (the newpcb) True st;
            st = tcp_sent (the newpcb) True st;
            st = tcp_err (the newpcb) True st
        in (ERR_OK, st))"

definition lwip_bridge_tcp_close :: "pcb_ptr \<Rightarrow> close_outcome \<Rightarrow> tcp_state \<Rightarrow> tcp_state" where
  "lwip_bridge_tcp_close tpcb outcome st =
     (let st = tcp_arg tpcb None st;
          st = tcp_recv tpcb False st;
          st = tcp_sent tpcb False st;
          st = tcp_err tpcb False st;
          (err, st) = tcp_close tpcb outcome st
      in if err \<noteq> ERR_OK then tcp_abort tpcb st else st)"

text \<open>
  \<^verbatim>\<open>while (tcp_active_pcbs != NULL) tcp_abort(tcp_active_pcbs);\<close>
\<close>

function abort_active :: "tcp_state \<Rightarrow> tcp_state" where
  "abort_active st =
     (case tcp_active_pcbs st of
        [] \<Rightarrow> st
      | p # _ \<Rightarrow> abort_active (tcp_abort p st))"
  by pat_completeness auto
termination
proof (relation "measure (\<lambda>st. length (tcp_active_pcbs st))")
  fix st :: tcp_state and p ps
  assume "tcp_active_pcbs st = p # ps"
  then have "length (tcp_active_pcbs (tcp_abort p st)) < length (tcp_active_pcbs st)"
    by (auto simp add: tcp_abort_def tcp_pcb_remove_free_def tcp_err_cb_def Let_def
        less_Suc_eq_le split: option.splits)
  then show "(tcp_abort p st, st) \<in> measure (\<lambda>st. length (tcp_active_pcbs st))"
    by simp
qed simp

declare abort_active.simps [simp del]

text \<open>
  \<^verbatim>\<open>while (tcp_tw_pcbs != NULL) { pcb = tcp_tw_pcbs; tcp_pcb_remove(&tcp_tw_pcbs, pcb); tcp_free(pcb); }\<close>
\<close>

function free_time_wait :: "tcp_state \<Rightarrow> tcp_state" where
  "free_time_wait st =
     (case tcp_tw_pcbs st of
        [] \<Rightarrow> st
      | pcb # _ \<Rightarrow> free_time_wait (tcp_pcb_remove_free pcb st))"
  by pat_completeness auto
termination
proof (relation "measure (\<lambda>st. length (tcp_tw_pcbs st))")
  fix st :: tcp_state and p ps
  assume "tcp_tw_pcbs st = p # ps"
  then have "length (tcp_tw_pcbs (tcp_pcb_remove_free p st)) < length (tcp_tw_pcbs st)"
    by (auto simp add: tcp_pcb_remove_free_def less_Suc_eq_le)
  then show "(tcp_pcb_remove_free p st, st) \<in> measure (\<lambda>st. length (tcp_tw_pcbs st))"
    by simp
qed simp

declare free_time_wait.simps [simp del]

text \<open>
  After the two loops the listeners are closed or removed and their pointers set to null,
  and the interface is taken down and removed.
\<close>

definition lwip_bridge_shutdown :: "tcp_state \<Rightarrow> tcp_state" where
  "lwip_bridge_shutdown st =
     (let st = abort_active st;
          st = free_time_wait st;
          st = st\<lparr>tcp_listen_pcb_v4 := None\<rparr>;
          st = st\<lparr>tcp_listen_pcb_v6 := None\<rparr>;
          st = st\<lparr>udp_listen_pcb_v4 := None\<rparr>;
          st = st\<lparr>udp_listen_pcb_v6 := None\<rparr>
      in st\<lparr>netif_up := False\<rparr>)"

subsection \<open>Notions used in the proofs about shutdown\<close>

text \<open>
  The calls of the relay layer's error function that \<open>tcp_abort p\<close> makes in state
  \<open>st\<close>.
\<close>

definition abort_calls :: "tcp_state \<Rightarrow> pcb_ptr \<Rightarrow> (handle \<times> err_t) list" where
  "abort_calls st p =
     (case pcbs st p of
        None \<Rightarrow> []
      | Some pcb \<Rightarrow>
          (case callback_arg pcb of
             None \<Rightarrow> []
           | Some h \<Rightarrow> if errf pcb \<and> s_tcp_err_fn st then [(h, ERR_ABRT)] else []))"

text \<open>
  The four calls that open \<open>lwip_bridge_tcp_close\<close>.
\<close>

definition clear_callbacks :: "pcb_ptr \<Rightarrow> tcp_state \<Rightarrow> tcp_state" where
  "clear_callbacks p st = tcp_err p False (tcp_sent p False (tcp_recv p False (tcp_arg p None st)))"

section \<open>Properties of Packet/CPacket.c\<close>

subsection \<open>The nonce transform\<close>

lemma xor_nonce_with_seq_length:
  "length (xor_nonce_with_seq nonce seqNum) = length nonce"
  by (simp add: xor_nonce_with_seq_def Let_def)

lemma xor_nonce_with_seq_nth:
  assumes "length nonce = 12" and "i < 12"
  shows "xor_nonce_with_seq nonce seqNum ! i =
      (if i < 4 then nonce ! i else nonce ! i XOR ucast (drop_bit (8 * (11 - i)) seqNum))"
proof -
  from assms(2) consider "i = 0" | "i = 1" | "i = 2" | "i = 3" | "i = 4" | "i = 5" | "i = 6"
    | "i = 7" | "i = 8" | "i = 9" | "i = 10" | "i = 11"
    by atomize_elim arith
  then show ?thesis
    using assms(1) by cases (simp_all add: xor_nonce_with_seq_def Let_def)
qed

lemma xor_nonce_with_seq_twice:
  assumes "length nonce = 12"
  shows "xor_nonce_with_seq (xor_nonce_with_seq nonce seqNum) seqNum = nonce"
proof (rule nth_equalityI)
  show "length (xor_nonce_with_seq (xor_nonce_with_seq nonce seqNum) seqNum) = length nonce"
    by (simp add: xor_nonce_with_seq_length)
next
  fix i
  assume "i < length (xor_nonce_with_seq (xor_nonce_with_seq nonce seqNum) seqNum)"
  then have i: "i < 12"
    using assms by (simp add: xor_nonce_with_seq_length)
  have l: "length (xor_nonce_with_seq nonce seqNum) = 12"
    using assms by (simp add: xor_nonce_with_seq_length)
  show "xor_nonce_with_seq (xor_nonce_with_seq nonce seqNum) seqNum ! i = nonce ! i"
    by (simp add: xor_nonce_with_seq_nth [OF l i] xor_nonce_with_seq_nth [OF assms i] xor.assoc)
qed

text \<open>
  C8. For every 12-byte nonce and every 64-bit sequence number, \<open>xor_nonce_with_seq\<close>
  leaves bytes 0 to 3 unchanged and XORs into byte \<open>i\<close>, for \<open>i\<close> from 4 to 11, the
  byte of the sequence number at big-endian position \<open>i - 4\<close> (the sequence number
  shifted right by \<open>8 * (11 - i)\<close> bits, truncated to a byte). Applying the transform
  twice with the same sequence number gives the original nonce back.
\<close>

theorem xor_nonce_with_seq_involution:
  assumes "length nonce = 12"
  shows "length (xor_nonce_with_seq nonce seqNum) = 12
       \<and> (\<forall>i<12. xor_nonce_with_seq nonce seqNum ! i =
            (if i < 4 then nonce ! i
             else nonce ! i XOR ucast (drop_bit (8 * (11 - i)) seqNum)))
       \<and> xor_nonce_with_seq (xor_nonce_with_seq nonce seqNum) seqNum = nonce"
  using assms
  by (simp add: xor_nonce_with_seq_length xor_nonce_with_seq_nth xor_nonce_with_seq_twice)

theorem xor_nonce_with_seq_involution_witness:
  "xor_nonce_with_seq [0, 1, 2, 3, 4, 5, 6, 7, 8, 9, 10, 11] 0x0102030405060708
     = [0, 1, 2, 3, 5, 7, 5, 3, 13, 15, 13, 3]
   \<and> xor_nonce_with_seq
       (xor_nonce_with_seq [0, 1, 2, 3, 4, 5, 6, 7, 8, 9, 10, 11] 0x0102030405060708)
       0x0102030405060708
     = [0, 1, 2, 3, 4, 5, 6, 7, 8, 9, 10, 11]"
proof -
  have len: "length [0, 1, 2, 3, 4, 5, 6, 7, 8, 9, 10, 11 :: u8] = 12"
    by simp
  have val: "xor_nonce_with_seq [0, 1, 2, 3, 4, 5, 6, 7, 8, 9, 10, 11] 0x0102030405060708
     = [0, 1, 2, 3, 5, 7, 5, 3, 13, 15, 13, 3]"
    by code_simp
  from xor_nonce_with_seq_involution [OF len, of "0x0102030405060708"] val
  show ?thesis by simp
qed

subsection \<open>The outer record header\<close>

lemma be16_disjoint: "push_bit 8 (ucast (a :: u8) :: u16) AND ucast (b :: u8) = 0"
  by (rule bit_word_eqI) (auto simp add: bit_simps dest: bit_imp_le_length)

lemma be16_unat:
  "unat (push_bit 8 (ucast (a :: u8) :: u16) OR ucast (b :: u8)) = 256 * unat a + unat b"
proof -
  have "push_bit 8 (ucast a :: u16) OR ucast b = push_bit 8 (ucast a :: u16) + ucast b"
    by (simp add: disjunctive_add_eq_or be16_disjoint)
  moreover have "unat a < 256" "unat b < 256"
    using unsigned_less [of a] unsigned_less [of b] by simp_all
  ultimately show ?thesis
    by (simp add: unat_word_ariths push_bit_eq_mult unsigned_ucast_eq take_bit_eq_mod)
qed

text \<open>
  C7. For every buffer, \<open>parse_tls_header\<close> returns 0 (need more data) and writes
  nothing when fewer than 5 bytes are available. Otherwise it returns 1 with the content
  type read from offset 0 and the record length read big-endian from offsets 3 and 4.
  The return value is 0 or 1, and it is 0 exactly when the buffer is shorter than 5
  bytes: the function has no failure result besides "need more data".
\<close>

theorem parse_tls_header_need_more_data:
  "(length buffer < 5 \<longrightarrow> parse_tls_header buffer = (0, None))
   \<and> (5 \<le> length buffer \<longrightarrow>
        (\<exists>recordLen. parse_tls_header buffer = (1, Some (buffer ! 0, recordLen))
           \<and> unat recordLen = 256 * unat (buffer ! 3) + unat (buffer ! 4)))
   \<and> (fst (parse_tls_header buffer) = 0 \<longleftrightarrow> length buffer < 5)
   \<and> (fst (parse_tls_header buffer) = 0 \<or> fst (parse_tls_header buffer) = 1)"
  by (simp add: parse_tls_header_def be16_unat)

theorem parse_tls_header_need_more_data_witness:
  "parse_tls_header [0x17, 0x03, 0x03, 0x01] = (0, None)
   \<and> parse_tls_header [0x17, 0x03, 0x03, 0x01, 0x02] = (1, Some (0x17, 0x0102))"
proof -
  have v: "parse_tls_header [0x17, 0x03, 0x03, 0x01, 0x02] = (1, Some (0x17, 0x0102))"
    by code_simp
  from parse_tls_header_need_more_data [of "[0x17, 0x03, 0x03, 0x01]"] v
  show ?thesis by simp
qed

subsection \<open>The TLS 1.3 inner plaintext\<close>

lemma scan_back_spec:
  assumes "- 1 \<le> i" and "i < int (length data)"
  shows "- 1 \<le> scan_back data i \<and> scan_back data i \<le> i
       \<and> (0 \<le> scan_back data i \<longrightarrow> data ! nat (scan_back data i) \<noteq> 0)
       \<and> (\<forall>j. scan_back data i < j \<and> j \<le> i \<longrightarrow> data ! nat j = 0)"
  using assms
proof (induction data i rule: scan_back.induct)
  case (1 data i)
  show ?case
  proof (cases "i \<ge> 0 \<and> data ! nat i = 0")
    case True
    then have eq: "scan_back data i = scan_back data (i - 1)"
      by (subst scan_back.simps) simp
    have ih: "- 1 \<le> scan_back data (i - 1) \<and> scan_back data (i - 1) \<le> i - 1
       \<and> (0 \<le> scan_back data (i - 1) \<longrightarrow> data ! nat (scan_back data (i - 1)) \<noteq> 0)
       \<and> (\<forall>j. scan_back data (i - 1) < j \<and> j \<le> i - 1 \<longrightarrow> data ! nat j = 0)"
      using "1.IH" [OF True] True "1.prems" by simp
    have "data ! nat j = 0" if "scan_back data (i - 1) < j" "j \<le> i" for j
    proof (cases "j = i")
      case True
      with \<open>i \<ge> 0 \<and> data ! nat i = 0\<close> show ?thesis by simp
    next
      case False
      with that ih show ?thesis by simp
    qed
    with ih show ?thesis unfolding eq by simp
  next
    case False
    then have eq: "scan_back data i = i"
      by (subst scan_back.simps) auto
    from False "1.prems" show ?thesis unfolding eq by auto
  qed
qed

lemma all_zero_nth: "(\<forall>b\<in>set data. b = 0) \<longleftrightarrow> (\<forall>j<length data. data ! j = (0::u8))"
  by (metis in_set_conv_nth)

lemma find_tls13_content_end_all_zero:
  assumes "\<forall>b\<in>set data. b = 0"
  shows "find_tls13_content_end data = (- 1, None)"
proof (cases "data = []")
  case True
  then show ?thesis by (simp add: find_tls13_content_end_def)
next
  case False
  then have len: "0 < length data" by simp
  have z: "data ! j = 0" if "j < length data" for j
    using assms that by (simp add: all_zero_nth)
  let ?r = "scan_back data (int (length data) - 1)"
  have sb: "- 1 \<le> ?r \<and> ?r \<le> int (length data) - 1 \<and> (0 \<le> ?r \<longrightarrow> data ! nat ?r \<noteq> 0)"
    using scan_back_spec [of "int (length data) - 1" data] len by simp
  have "?r < 0"
  proof (rule ccontr)
    assume "\<not> ?r < 0"
    then have "0 \<le> ?r" by simp
    with sb have "data ! nat ?r \<noteq> 0" and "nat ?r < length data" by auto
    with z show False by blast
  qed
  moreover have "data ! (length data - 1) = 0" using z len by simp
  ultimately show ?thesis
    by (simp add: find_tls13_content_end_def Let_def)
qed

lemma find_tls13_content_end_nonzero:
  assumes "\<not> (\<forall>b\<in>set data. b = 0)"
  shows "\<exists>k<length data. find_tls13_content_end data = (int k, Some (data ! k))
           \<and> data ! k \<noteq> 0 \<and> (\<forall>j. k < j \<and> j < length data \<longrightarrow> data ! j = 0)"
proof -
  from assms have len: "0 < length data" by auto
  from assms obtain m where m: "m < length data" "data ! m \<noteq> 0"
    by (auto simp: all_zero_nth)
  let ?n = "length data"
  show ?thesis
  proof (cases "?n \<ge> 8 \<and> data ! (?n - 1) \<noteq> 0")
    case True
    then have "find_tls13_content_end data = (int (?n - 1), Some (data ! (?n - 1)))"
      using len by (simp add: find_tls13_content_end_def Let_def of_nat_diff)
    moreover have "\<forall>j. ?n - 1 < j \<and> j < ?n \<longrightarrow> data ! j = 0" by auto
    ultimately show ?thesis using True len
      by (intro exI [of _ "?n - 1"]) simp
  next
    case False
    let ?r = "scan_back data (int ?n - 1)"
    have sb: "- 1 \<le> ?r \<and> ?r \<le> int ?n - 1 \<and> (0 \<le> ?r \<longrightarrow> data ! nat ?r \<noteq> 0)
       \<and> (\<forall>j. ?r < j \<and> j \<le> int ?n - 1 \<longrightarrow> data ! nat j = 0)"
      using scan_back_spec [of "int ?n - 1" data] len by simp
    have nonneg: "0 \<le> ?r"
    proof (rule ccontr)
      assume "\<not> 0 \<le> ?r"
      then have "?r < int m \<and> int m \<le> int ?n - 1" using m by simp
      with sb have "data ! nat (int m) = 0" by blast
      with m show False by simp
    qed
    have fe: "find_tls13_content_end data = (?r, Some (data ! nat ?r))"
      using False len nonneg by (auto simp add: find_tls13_content_end_def Let_def)
    have tail: "data ! j = 0" if "nat ?r < j" "j < ?n" for j
    proof -
      from that nonneg have "?r < int j \<and> int j \<le> int ?n - 1" by simp
      with sb have "data ! nat (int j) = 0" by blast
      then show ?thesis by simp
    qed
    from sb nonneg have "nat ?r < ?n" "data ! nat ?r \<noteq> 0" by auto
    with fe tail nonneg show ?thesis
      by (intro exI [of _ "nat ?r"]) simp
  qed
qed


lemma zero_tail_replicate:
  assumes "k < length body" and "\<forall>j. k < j \<and> j < length body \<longrightarrow> body ! j = (0 :: u8)"
  shows "body = take k body @ body ! k # replicate (length body - k - 1) 0"
proof -
  have "drop (Suc k) body = replicate (length body - k - 1) 0"
    using assms by (intro nth_equalityI) auto
  then show ?thesis
    using assms(1) by (metis Cons_nth_drop_Suc append_take_drop_id)
qed

text \<open>
  C5. For every byte sequence \<open>body\<close>, \<open>tls13_unwrap_content\<close> returns -1 if and only
  if \<open>body\<close> is empty or all its bytes are zero. Otherwise the returned content length
  is the index \<open>k\<close> of the last non-zero byte and that byte is reported as the content
  type: \<open>body\<close> is its first \<open>k\<close> bytes (the content), then the content type, then
  zero bytes only (the padding).
\<close>

theorem tls13_unwrap_content_last_nonzero:
  "(fst (tls13_unwrap_content body) = - 1 \<longleftrightarrow> body = [] \<or> (\<forall>b\<in>set body. b = 0))
   \<and> (\<not> (body = [] \<or> (\<forall>b\<in>set body. b = 0)) \<longrightarrow>
        (\<exists>k<length body. tls13_unwrap_content body = (int k, Some (body ! k))
           \<and> body ! k \<noteq> 0
           \<and> (\<forall>j. k < j \<and> j < length body \<longrightarrow> body ! j = 0)
           \<and> body = take k body @ body ! k # replicate (length body - k - 1) 0))"
proof (cases "\<forall>b\<in>set body. b = 0")
  case True
  then have "find_tls13_content_end body = (- 1, None)"
    by (rule find_tls13_content_end_all_zero)
  with True show ?thesis
    by (simp add: tls13_unwrap_content_def)
next
  case False
  then have ne: "body \<noteq> []" by auto
  from find_tls13_content_end_nonzero [OF False] obtain k where k: "k < length body"
    "find_tls13_content_end body = (int k, Some (body ! k))" "body ! k \<noteq> 0"
    "\<forall>j. k < j \<and> j < length body \<longrightarrow> body ! j = 0"
    by blast
  then have u: "tls13_unwrap_content body = (int k, Some (body ! k))"
    using ne by (simp add: tls13_unwrap_content_def)
  have "body = take k body @ body ! k # replicate (length body - k - 1) 0"
    using k(1) k(4) by (rule zero_tail_replicate)
  with k u have "\<exists>k<length body. tls13_unwrap_content body = (int k, Some (body ! k))
           \<and> body ! k \<noteq> 0
           \<and> (\<forall>j. k < j \<and> j < length body \<longrightarrow> body ! j = 0)
           \<and> body = take k body @ body ! k # replicate (length body - k - 1) 0"
    by blast
  moreover have "fst (tls13_unwrap_content body) \<noteq> - 1"
    using u by simp
  ultimately show ?thesis
    using False ne by blast
qed

theorem tls13_unwrap_content_last_nonzero_witness:
  "tls13_unwrap_content [0x41, 0x42, 0x16, 0x00, 0x00] = (2, Some 0x16)
   \<and> take 2 [0x41, 0x42, 0x16, 0x00, 0x00 :: u8] = [0x41, 0x42]
   \<and> fst (tls13_unwrap_content [0x00, 0x00, 0x00]) = - 1
   \<and> fst (tls13_unwrap_content []) = - 1"
proof -
  have v: "tls13_unwrap_content [0x41, 0x42, 0x16, 0x00, 0x00] = (2, Some 0x16)"
    by code_simp
  from tls13_unwrap_content_last_nonzero [of "[0x00, 0x00, 0x00]"]
    tls13_unwrap_content_last_nonzero [of "[]"] v
  show ?thesis by simp
qed

section \<open>Properties of VLESS/CVLESS.c\<close>

subsection \<open>The request header\<close>

lemma memcpy_length: "length (memcpy dst off src n) = length dst"
  by (induction n) simp_all

lemma memcpy_nth:
  assumes "i < length dst"
  shows "memcpy dst off src n ! i = (if off \<le> i \<and> i < off + n then src ! (i - off) else dst ! i)"
  using assms
  by (induction n) (auto simp: memcpy_length nth_list_update less_Suc_eq)

lemma fixed_part:
  assumes "length uuid = 16" and "22 \<le> length buffer"
  shows "(memcpy (buffer[0 := 0]) (Suc 0) uuid 16)[17 := 0, 18 := command, 19 := hi, 20 := lo, 21 := atype]
     = (0 # uuid @ [0, command, hi, lo, atype]) @ drop 22 buffer"
proof (rule nth_equalityI)
  show "length ((memcpy (buffer[0 := 0]) (Suc 0) uuid 16)[17 := 0, 18 := command, 19 := hi, 20 := lo, 21 := atype])
     = length ((0 # uuid @ [0, command, hi, lo, atype]) @ drop 22 buffer)"
    using assms by (simp add: memcpy_length)
next
  fix i
  assume "i < length ((memcpy (buffer[0 := 0]) (Suc 0) uuid 16)[17 := 0, 18 := command, 19 := hi, 20 := lo, 21 := atype])"
  then have i: "i < length buffer" by (simp add: memcpy_length)
  consider "i = 0" | "1 \<le> i \<and> i < 17" | "i = 17" | "i = 18" | "i = 19" | "i = 20" | "i = 21" | "22 \<le> i"
    by atomize_elim arith
  then show "(memcpy (buffer[0 := 0]) (Suc 0) uuid 16)[17 := 0, 18 := command, 19 := hi, 20 := lo, 21 := atype] ! i
     = ((0 # uuid @ [0, command, hi, lo, atype]) @ drop 22 buffer) ! i"
    using i assms
    by cases (auto simp add: memcpy_length memcpy_nth nth_list_update nth_append nth_Cons')
qed


lemma memcpy_eq:
  assumes "off + n \<le> length dst" and "n \<le> length src"
  shows "memcpy dst off src n = take off dst @ take n src @ drop (off + n) dst"
proof (rule nth_equalityI)
  show "length (memcpy dst off src n) = length (take off dst @ take n src @ drop (off + n) dst)"
    using assms by (simp add: memcpy_length)
next
  fix i
  assume "i < length (memcpy dst off src n)"
  then have "i < length dst" by (simp add: memcpy_length)
  then show "memcpy dst off src n ! i = (take off dst @ take n src @ drop (off + n) dst) ! i"
    using assms by (auto simp add: memcpy_nth nth_append)
qed

lemma mask8: "(0xFF :: u16) = mask 8"
  by (simp add: mask_eq_exp_minus_1)

lemma port_bytes:
  "push_bit 8 (ucast (ucast (drop_bit 8 (p :: u16)) :: u8) :: u16) OR ucast (ucast (p AND 0xFF) :: u8) = p"
  unfolding mask8
  by (rule bit_word_eqI) (auto simp add: bit_simps not_le dest: bit_imp_le_length)


lemma fixed_part_length:
  "length uuid = 16 \<Longrightarrow>
   length (0 # uuid @ [0, command, ucast (drop_bit 8 port), ucast (port AND 0xFF), addressType :: u8]) = 22"
  by simp

lemma build_other:
  assumes "length uuid = 16" and "22 \<le> length buffer"
    and "addressType \<noteq> VLESS_ADDR_IPV4" "addressType \<noteq> VLESS_ADDR_DOMAIN" "addressType \<noteq> VLESS_ADDR_IPV6"
  shows "build_vless_request_header buffer uuid command port addressType address addressLen
     = ((0 # uuid @ [0, command, ucast (drop_bit 8 port), ucast (port AND 0xFF), addressType])
          @ drop 22 buffer, 22)"
  using assms fixed_part [OF assms(1,2)]
  by (simp add: build_vless_request_header_def)

lemma memcpy_after_prefix:
  assumes "length pre = off" and "off + n \<le> length buffer" and "n \<le> length src"
  shows "memcpy (pre @ drop off buffer) off src n = pre @ take n src @ drop (off + n) buffer"
  using assms by (subst memcpy_eq) (simp_all add: add.commute)

lemma update_after_prefix:
  assumes "length pre = off" and "off < length buffer"
  shows "(pre @ drop off buffer)[off := v] = (pre @ [v]) @ drop (Suc off) buffer"
proof -
  have "drop off buffer = buffer ! off # drop (Suc off) buffer"
    using assms(2) by (simp add: Cons_nth_drop_Suc)
  then show ?thesis
    using assms(1) by (simp add: list_update_append)
qed

lemma build_ip:
  assumes "length uuid = 16" and "22 + n \<le> length buffer" and "n \<le> length address"
  shows "memcpy ((memcpy (buffer[0 := 0]) (Suc 0) uuid 16)[17 := 0, 18 := command,
            19 := ucast (drop_bit 8 port), 20 := ucast (port AND 0xFF), 21 := addressType])
           22 address n
     = (0 # uuid @ [0, command, ucast (drop_bit 8 port), ucast (port AND 0xFF), addressType])
         @ take n address @ drop (22 + n) buffer"
proof -
  let ?fixed = "0 # uuid @ [0, command, ucast (drop_bit 8 port), ucast (port AND 0xFF), addressType]"
  have f: "(memcpy (buffer[0 := 0]) (Suc 0) uuid 16)[17 := 0, 18 := command,
            19 := ucast (drop_bit 8 port), 20 := ucast (port AND 0xFF), 21 := addressType]
     = ?fixed @ drop 22 buffer"
    using fixed_part [of uuid buffer] assms by simp
  have l: "length ?fixed = 22"
    using assms(1) by simp
  show ?thesis
    unfolding f using l assms(2,3) by (rule memcpy_after_prefix)
qed

lemma build_ipv4:
  assumes "length uuid = 16" and "26 \<le> length buffer" and "length address = 4"
  shows "build_vless_request_header buffer uuid command port VLESS_ADDR_IPV4 address addressLen
     = ((0 # uuid @ [0, command, ucast (drop_bit 8 port), ucast (port AND 0xFF), VLESS_ADDR_IPV4])
          @ address @ drop 26 buffer, 26)"
  using build_ip [of uuid 4 buffer address command port VLESS_ADDR_IPV4] assms
  by (simp add: build_vless_request_header_def VLESS_ADDR_IPV4_def VLESS_ADDR_DOMAIN_def)

lemma build_ipv6:
  assumes "length uuid = 16" and "38 \<le> length buffer" and "length address = 16"
  shows "build_vless_request_header buffer uuid command port VLESS_ADDR_IPV6 address addressLen
     = ((0 # uuid @ [0, command, ucast (drop_bit 8 port), ucast (port AND 0xFF), VLESS_ADDR_IPV6])
          @ address @ drop 38 buffer, 38)"
  using build_ip [of uuid 16 buffer address command port VLESS_ADDR_IPV6] assms
  by (simp add: build_vless_request_header_def VLESS_ADDR_IPV4_def VLESS_ADDR_DOMAIN_def
      VLESS_ADDR_IPV6_def)

lemma build_domain:
  assumes "length uuid = 16" and "23 + addressLen \<le> length buffer" and "length address = addressLen"
  shows "build_vless_request_header buffer uuid command port VLESS_ADDR_DOMAIN address addressLen
     = ((0 # uuid @ [0, command, ucast (drop_bit 8 port), ucast (port AND 0xFF), VLESS_ADDR_DOMAIN,
           word_of_nat addressLen])
          @ address @ drop (23 + addressLen) buffer, 23 + addressLen)"
proof -
  let ?fixed = "0 # uuid @ [0, command, ucast (drop_bit 8 port), ucast (port AND 0xFF), VLESS_ADDR_DOMAIN]"
  let ?pre = "?fixed @ [word_of_nat addressLen]"
  have f: "(memcpy (buffer[0 := 0]) (Suc 0) uuid 16)[17 := 0, 18 := command,
            19 := ucast (drop_bit 8 port), 20 := ucast (port AND 0xFF), 21 := VLESS_ADDR_DOMAIN]
     = ?fixed @ drop 22 buffer"
    using fixed_part [of uuid buffer] assms by simp
  have l: "length ?fixed = 22"
    using assms(1) by simp
  have b: "22 < length buffer"
    using assms(2) by simp
  have u: "(?fixed @ drop 22 buffer)[22 := word_of_nat addressLen] = ?pre @ drop (Suc 22) buffer"
    using l b by (rule update_after_prefix)
  have l': "length ?pre = Suc 22"
    using assms(1) by simp
  have b': "Suc 22 + addressLen \<le> length buffer"
    using assms(2) by simp
  have a: "addressLen \<le> length address"
    using assms(3) by simp
  have "memcpy (?pre @ drop (Suc 22) buffer) (Suc 22) address addressLen
      = ?pre @ take addressLen address @ drop (Suc 22 + addressLen) buffer"
    using l' b' a by (rule memcpy_after_prefix)
  then have "memcpy ((?fixed @ drop 22 buffer)[22 := word_of_nat addressLen]) 23 address addressLen
      = ?pre @ address @ drop (23 + addressLen) buffer"
    using assms(3) unfolding u by simp
  then show ?thesis
    using f by (simp add: build_vless_request_header_def)
qed


lemma header_fields:
  assumes "length uuid = 16" and "out = (0 # uuid @ [z, command, hi, lo, t]) @ rest"
  shows "take 16 (drop 1 out) = uuid \<and> out ! 18 = command \<and> out ! 19 = hi \<and> out ! 20 = lo
       \<and> out ! 21 = t \<and> drop 22 out = rest"
  using assms by (simp add: nth_append)

lemma take_drop_at_length:
  "length xs = n \<Longrightarrow> take n (xs @ ys) = xs \<and> drop n (xs @ ys) = ys"
  by auto

lemma domain_length_byte: "addressLen \<le> 255 \<Longrightarrow> unat (word_of_nat addressLen :: u8) = addressLen"
  by (simp add: unat_of_nat)


text \<open>
  C1, as the source has it. For a 16-byte uuid, any command byte and port, and an address
  of 4 bytes (IPv4), of 16 bytes (IPv6) or of \<open>addressLen \<le> 255\<close> bytes (Domain), written
  into a buffer with room for it, \<open>build_vless_request_header\<close> writes, in order: the
  version byte 0, the uuid, the addons-length byte 0, the command, the port as two
  big-endian bytes, the address type and the address, which a Domain prefixes with its
  length byte. It returns 22 + 4, 22 + 16 or 22 + \<open>addressLen\<close> + 1 and leaves the rest of
  the buffer as it was. Reading the output at the fixed offsets gives back the uuid
  (bytes 1 to 16), the command (byte 18), the port (bytes 19 and 20), the address type
  (byte 21) and the address (from byte 22, or from byte 23 after a Domain's length byte).
\<close>

theorem build_vless_request_header_layout:
  assumes "length uuid = 16"
  shows
   "(length address = 4 \<and> 26 \<le> length buffer \<longrightarrow>
      (case build_vless_request_header buffer uuid command port VLESS_ADDR_IPV4 address addressLen of
         (out, n) \<Rightarrow>
           n = 22 + 4
         \<and> take n out = 0 # uuid @ [0, command, ucast (drop_bit 8 port), ucast (port AND 0xFF),
                                     VLESS_ADDR_IPV4] @ address
         \<and> drop n out = drop n buffer
         \<and> take 16 (drop 1 out) = uuid \<and> out ! 18 = command
         \<and> push_bit 8 (ucast (out ! 19)) OR ucast (out ! 20) = port
         \<and> out ! 21 = VLESS_ADDR_IPV4 \<and> take 4 (drop 22 out) = address))
  \<and> (length address = 16 \<and> 38 \<le> length buffer \<longrightarrow>
      (case build_vless_request_header buffer uuid command port VLESS_ADDR_IPV6 address addressLen of
         (out, n) \<Rightarrow>
           n = 22 + 16
         \<and> take n out = 0 # uuid @ [0, command, ucast (drop_bit 8 port), ucast (port AND 0xFF),
                                     VLESS_ADDR_IPV6] @ address
         \<and> drop n out = drop n buffer
         \<and> take 16 (drop 1 out) = uuid \<and> out ! 18 = command
         \<and> push_bit 8 (ucast (out ! 19)) OR ucast (out ! 20) = port
         \<and> out ! 21 = VLESS_ADDR_IPV6 \<and> take 16 (drop 22 out) = address))
  \<and> (length address = addressLen \<and> addressLen \<le> 255 \<and> 23 + addressLen \<le> length buffer \<longrightarrow>
      (case build_vless_request_header buffer uuid command port VLESS_ADDR_DOMAIN address addressLen of
         (out, n) \<Rightarrow>
           n = 22 + addressLen + 1
         \<and> take n out = 0 # uuid @ [0, command, ucast (drop_bit 8 port), ucast (port AND 0xFF),
                                     VLESS_ADDR_DOMAIN, word_of_nat addressLen] @ address
         \<and> drop n out = drop n buffer
         \<and> take 16 (drop 1 out) = uuid \<and> out ! 18 = command
         \<and> push_bit 8 (ucast (out ! 19)) OR ucast (out ! 20) = port
         \<and> out ! 21 = VLESS_ADDR_DOMAIN \<and> unat (out ! 22) = addressLen
         \<and> take addressLen (drop 23 out) = address))"
proof (intro conjI impI)
  assume a: "length address = 4 \<and> 26 \<le> length buffer"
  let ?out = "(0 # uuid @ [0, command, ucast (drop_bit 8 port), ucast (port AND 0xFF), VLESS_ADDR_IPV4])
                @ address @ drop 26 buffer"
  have b: "build_vless_request_header buffer uuid command port VLESS_ADDR_IPV4 address addressLen
      = (?out, 26)"
    using assms a by (simp add: build_ipv4)
  have "take 16 (drop 1 ?out) = uuid \<and> ?out ! 18 = command \<and> ?out ! 19 = ucast (drop_bit 8 port)
      \<and> ?out ! 20 = ucast (port AND 0xFF) \<and> ?out ! 21 = VLESS_ADDR_IPV4
      \<and> drop 22 ?out = address @ drop 26 buffer"
    using assms by (rule header_fields) simp
  then show "case build_vless_request_header buffer uuid command port VLESS_ADDR_IPV4 address addressLen of
         (out, n) \<Rightarrow>
           n = 22 + 4
         \<and> take n out = 0 # uuid @ [0, command, ucast (drop_bit 8 port), ucast (port AND 0xFF),
                                     VLESS_ADDR_IPV4] @ address
         \<and> drop n out = drop n buffer
         \<and> take 16 (drop 1 out) = uuid \<and> out ! 18 = command
         \<and> push_bit 8 (ucast (out ! 19)) OR ucast (out ! 20) = port
         \<and> out ! 21 = VLESS_ADDR_IPV4 \<and> take 4 (drop 22 out) = address"
    unfolding b using assms a by (simp add: port_bytes)
next
  assume a: "length address = 16 \<and> 38 \<le> length buffer"
  let ?out = "(0 # uuid @ [0, command, ucast (drop_bit 8 port), ucast (port AND 0xFF), VLESS_ADDR_IPV6])
                @ address @ drop 38 buffer"
  have b: "build_vless_request_header buffer uuid command port VLESS_ADDR_IPV6 address addressLen
      = (?out, 38)"
    using assms a by (simp add: build_ipv6)
  have "take 16 (drop 1 ?out) = uuid \<and> ?out ! 18 = command \<and> ?out ! 19 = ucast (drop_bit 8 port)
      \<and> ?out ! 20 = ucast (port AND 0xFF) \<and> ?out ! 21 = VLESS_ADDR_IPV6
      \<and> drop 22 ?out = address @ drop 38 buffer"
    using assms by (rule header_fields) simp
  then show "case build_vless_request_header buffer uuid command port VLESS_ADDR_IPV6 address addressLen of
         (out, n) \<Rightarrow>
           n = 22 + 16
         \<and> take n out = 0 # uuid @ [0, command, ucast (drop_bit 8 port), ucast (port AND 0xFF),
                                     VLESS_ADDR_IPV6] @ address
         \<and> drop n out = drop n buffer
         \<and> take 16 (drop 1 out) = uuid \<and> out ! 18 = command
         \<and> push_bit 8 (ucast (out ! 19)) OR ucast (out ! 20) = port
         \<and> out ! 21 = VLESS_ADDR_IPV6 \<and> take 16 (drop 22 out) = address"
    unfolding b using assms a by (simp add: port_bytes)
next
  assume a: "length address = addressLen \<and> addressLen \<le> 255 \<and> 23 + addressLen \<le> length buffer"
  let ?hdr = "0 # uuid @ [0, command, ucast (drop_bit 8 port), ucast (port AND 0xFF),
                VLESS_ADDR_DOMAIN, word_of_nat addressLen] @ address"
  let ?out = "(0 # uuid @ [0, command, ucast (drop_bit 8 port), ucast (port AND 0xFF), VLESS_ADDR_DOMAIN])
                @ (word_of_nat addressLen # address @ drop (23 + addressLen) buffer)"
  have b: "build_vless_request_header buffer uuid command port VLESS_ADDR_DOMAIN address addressLen
      = (?out, 23 + addressLen)"
    using assms a by (simp add: build_domain)
  have "take 16 (drop 1 ?out) = uuid \<and> ?out ! 18 = command \<and> ?out ! 19 = ucast (drop_bit 8 port)
      \<and> ?out ! 20 = ucast (port AND 0xFF) \<and> ?out ! 21 = VLESS_ADDR_DOMAIN
      \<and> drop 22 ?out = word_of_nat addressLen # address @ drop (23 + addressLen) buffer"
    using assms by (rule header_fields) simp
  then have fields: "take 16 (drop 1 ?out) = uuid \<and> ?out ! 18 = command
      \<and> push_bit 8 (ucast (?out ! 19)) OR ucast (?out ! 20) = port
      \<and> ?out ! 21 = VLESS_ADDR_DOMAIN \<and> unat (?out ! 22) = addressLen
      \<and> take addressLen (drop 23 ?out) = address"
    using assms a by (simp add: port_bytes nth_append domain_length_byte)
  have "length ?hdr = 23 + addressLen"
    using assms a by simp
  then have "take (23 + addressLen) (?hdr @ drop (23 + addressLen) buffer) = ?hdr
      \<and> drop (23 + addressLen) (?hdr @ drop (23 + addressLen) buffer) = drop (23 + addressLen) buffer"
    by (rule take_drop_at_length)
  moreover have "?out = ?hdr @ drop (23 + addressLen) buffer"
    by simp
  ultimately have "take (23 + addressLen) ?out = ?hdr
      \<and> drop (23 + addressLen) ?out = drop (23 + addressLen) buffer"
    by simp
  with fields show "case build_vless_request_header buffer uuid command port VLESS_ADDR_DOMAIN address addressLen of
         (out, n) \<Rightarrow>
           n = 22 + addressLen + 1
         \<and> take n out = 0 # uuid @ [0, command, ucast (drop_bit 8 port), ucast (port AND 0xFF),
                                     VLESS_ADDR_DOMAIN, word_of_nat addressLen] @ address
         \<and> drop n out = drop n buffer
         \<and> take 16 (drop 1 out) = uuid \<and> out ! 18 = command
         \<and> push_bit 8 (ucast (out ! 19)) OR ucast (out ! 20) = port
         \<and> out ! 21 = VLESS_ADDR_DOMAIN \<and> unat (out ! 22) = addressLen
         \<and> take addressLen (drop 23 out) = address"
    unfolding b by (simp del: append.simps list.simps)
qed


theorem build_vless_request_header_layout_witness:
  "build_vless_request_header (replicate 26 0xEE) (map of_nat [1..<17]) 0x01 443 VLESS_ADDR_IPV4
       [10, 0, 0, 1] 4
     = ([0, 1, 2, 3, 4, 5, 6, 7, 8, 9, 10, 11, 12, 13, 14, 15, 16, 0, 1, 1, 187, 1,
         10, 0, 0, 1], 26)
   \<and> snd (build_vless_request_header (replicate 38 0xEE) (map of_nat [1..<17]) 0x01 443
            VLESS_ADDR_IPV6 (replicate 15 0 @ [1]) 16) = 38
   \<and> build_vless_request_header (replicate 26 0xEE) (map of_nat [1..<17]) 0x02 53
       VLESS_ADDR_DOMAIN [0x61, 0x2E, 0x62] 3
     = ([0, 1, 2, 3, 4, 5, 6, 7, 8, 9, 10, 11, 12, 13, 14, 15, 16, 0, 2, 0, 53, 2,
         3, 0x61, 0x2E, 0x62], 26)"
proof -
  have u: "length (map of_nat [1..<17] :: u8 list) = 16"
    by simp
  have v4: "build_vless_request_header (replicate 26 0xEE) (map of_nat [1..<17]) 0x01 443
       VLESS_ADDR_IPV4 [10, 0, 0, 1] 4
     = ([0, 1, 2, 3, 4, 5, 6, 7, 8, 9, 10, 11, 12, 13, 14, 15, 16, 0, 1, 1, 187, 1,
         10, 0, 0, 1], 26)"
    by code_simp
  have dom: "build_vless_request_header (replicate 26 0xEE) (map of_nat [1..<17]) 0x02 53
       VLESS_ADDR_DOMAIN [0x61, 0x2E, 0x62] 3
     = ([0, 1, 2, 3, 4, 5, 6, 7, 8, 9, 10, 11, 12, 13, 14, 15, 16, 0, 2, 0, 53, 2,
         3, 0x61, 0x2E, 0x62], 26)"
    by code_simp
  have "snd (build_vless_request_header (replicate 38 0xEE) (map of_nat [1..<17]) 0x01 443
            VLESS_ADDR_IPV6 (replicate 15 0 @ [1]) 16) = 38"
    using build_vless_request_header_layout [OF u, where address = "replicate 15 0 @ [1]"
        and buffer = "replicate 38 0xEE" and command = "0x01" and port = 443 and addressLen = 16]
    by (simp split: prod.splits)
  with v4 dom show ?thesis
    by simp
qed

text \<open>
  C1 as it is stated gives the length as 21 plus the address payload: for an IPv4 address
  that is 25, and the function returns 26.
\<close>

theorem build_vless_request_header_length_counterexample:
  "snd (build_vless_request_header (replicate 26 0xEE) (map of_nat [1..<17]) 0x01 443
          VLESS_ADDR_IPV4 [10, 0, 0, 1] 4) \<noteq> 21 + 4"
  by code_simp

text \<open>
  C10. For every address type other than \<open>VLESS_ADDR_IPV4\<close>, \<open>VLESS_ADDR_DOMAIN\<close> and
  \<open>VLESS_ADDR_IPV6\<close>, \<open>build_vless_request_header\<close> writes the 22 fixed bytes only
  (version, uuid, addons length, command, big-endian port, address type), leaves the rest
  of the buffer as it was and returns 22; the result does not depend on \<open>address\<close> or
  \<open>addressLen\<close>, and no failure is reported.
\<close>

theorem build_vless_request_header_unknown_type:
  assumes "length uuid = 16" and "22 \<le> length buffer"
    and "addressType \<noteq> VLESS_ADDR_IPV4" and "addressType \<noteq> VLESS_ADDR_DOMAIN"
    and "addressType \<noteq> VLESS_ADDR_IPV6"
  shows "build_vless_request_header buffer uuid command port addressType address addressLen
       = (0 # uuid @ [0, command, ucast (drop_bit 8 port), ucast (port AND 0xFF), addressType]
            @ drop 22 buffer, 22)
     \<and> build_vless_request_header buffer uuid command port addressType address' addressLen'
       = build_vless_request_header buffer uuid command port addressType address addressLen"
  using assms by (simp add: build_other)

theorem build_vless_request_header_unknown_type_witness:
  "build_vless_request_header (replicate 24 0xEE) (map of_nat [1..<17]) 0x01 443 0x09
       [10, 0, 0, 1] 4
     = ([0, 1, 2, 3, 4, 5, 6, 7, 8, 9, 10, 11, 12, 13, 14, 15, 16, 0, 1, 1, 187, 9,
         0xEE, 0xEE], 22)"
proof -
  have u: "length (map of_nat [1..<17] :: u8 list) = 16"
    by simp
  have b: "22 \<le> length (replicate 24 (0xEE :: u8))"
    by simp
  have t: "(0x09 :: u8) \<noteq> VLESS_ADDR_IPV4" "(0x09 :: u8) \<noteq> VLESS_ADDR_DOMAIN"
    "(0x09 :: u8) \<noteq> VLESS_ADDR_IPV6"
    by (simp_all add: VLESS_ADDR_IPV4_def VLESS_ADDR_DOMAIN_def VLESS_ADDR_IPV6_def)
  have "build_vless_request_header (replicate 24 0xEE) (map of_nat [1..<17]) 0x01 443 0x09
       [10, 0, 0, 1] 4
     = (0 # map of_nat [1..<17] @ [0, 0x01, ucast (drop_bit 8 (443 :: u16)),
          ucast ((443 :: u16) AND 0xFF), 0x09] @ drop 22 (replicate 24 0xEE), 22)"
    using build_vless_request_header_unknown_type [OF u b t] by blast
  also have "\<dots> = ([0, 1, 2, 3, 4, 5, 6, 7, 8, 9, 10, 11, 12, 13, 14, 15, 16, 0, 1, 1, 187, 9,
         0xEE, 0xEE], 22)"
    by code_simp
  finally show ?thesis .
qed

subsection \<open>The address parsers\<close>

text \<open>The examples of the specification, on the code.\<close>

lemma parse_ipv4_address_examples:
  "parse_ipv4_address ''192.168.1.1'' = Some [192, 168, 1, 1]"
  "parse_ipv4_address ''256.1.1.1'' = None"
  "parse_ipv4_address ''1.2.3'' = None"
  by code_simp+

lemma parse_ipv6_address_examples:
  "parse_ipv6_address ''2001:db8::1''
     = Some [0x20, 0x01, 0x0d, 0xb8, 0, 0, 0, 0, 0, 0, 0, 0, 0, 0, 0, 1]"
  "parse_ipv6_address ''[::1]'' = Some [0, 0, 0, 0, 0, 0, 0, 0, 0, 0, 0, 0, 0, 0, 0, 1]"
  "parse_ipv6_address ''1::2::3'' = None"
  by code_simp+

text \<open>
  C3 says that \<open>parse_ipv4_address\<close> fails on an incorrect group count and on any
  residue. The loop \<^verbatim>\<open>while (count < 4)\<close> ends once four numbers are read; when the
  fourth is followed by a dot, nothing looks at what comes after it. The five groups
  \<^verbatim>\<open>1.2.3.4.5\<close> are accepted as the address 1.2.3.4.
\<close>

theorem parse_ipv4_address_accepts_trailing_groups:
  "parse_ipv4_address ''1.2.3.4.5'' = Some [1, 2, 3, 4]"
  by code_simp

text \<open>
  Other inputs accepted by the same loop and by \<^verbatim>\<open>strtol\<close>, which skips white space
  and takes a sign.
\<close>

lemma parse_ipv4_address_other_inputs:
  "parse_ipv4_address ''1.2.3.4.'' = Some [1, 2, 3, 4]"
  "parse_ipv4_address ''1.2.3.4.x'' = Some [1, 2, 3, 4]"
  "parse_ipv4_address '' 1.2.3.4'' = Some [1, 2, 3, 4]"
  "parse_ipv4_address ''+1.2.3.4'' = Some [1, 2, 3, 4]"
  by code_simp+

text \<open>
  C4 says that \<open>parse_ipv6_address\<close> fails on any string with two \<^verbatim>\<open>::\<close>. The loop
  \<^verbatim>\<open>while (*ptr && partCount < 8)\<close> ends once eight groups are read and nothing looks
  at the rest of the string: a second \<^verbatim>\<open>::\<close> after the eighth group is accepted.
\<close>

theorem parse_ipv6_address_accepts_second_double_colon:
  "parse_ipv6_address ''1::2:3:4:5:6:7:8::''
     = Some [0, 1, 0, 2, 0, 3, 0, 4, 0, 5, 0, 6, 0, 7, 0, 8]"
  by code_simp

text \<open>
  Other inputs accepted by the same loop: a ninth group, a leading single colon, a group
  of five digits.
\<close>

lemma parse_ipv6_address_other_inputs:
  "parse_ipv6_address ''1:2:3:4:5:6:7:8:9'' = Some [0, 1, 0, 2, 0, 3, 0, 4, 0, 5, 0, 6, 0, 7, 0, 8]"
  "parse_ipv6_address '':1:2:3:4:5:6:7:8'' = Some [0, 1, 0, 2, 0, 3, 0, 4, 0, 5, 0, 6, 0, 7, 0, 8]"
  "parse_ipv6_address ''00001::'' = Some [0, 1, 0, 0, 0, 0, 0, 0, 0, 0, 0, 0, 0, 0, 0, 0]"
  by code_simp+

text \<open>
  C9. For every input string of at most 255 bytes that neither \<open>parse_ipv4_address\<close> nor
  \<open>parse_ipv6_address\<close> accepts, \<open>parse_vless_address\<close> succeeds with type Domain, the
  input bytes copied as they are and the input length as output length. The empty string
  is one such input: it gives a Domain of length 0.
\<close>

theorem parse_vless_address_domain_fallback:
  "(length str \<le> 255 \<and> parse_ipv4_address str = None \<and> parse_ipv6_address str = None \<longrightarrow>
      parse_vless_address str = Some (VLESS_ADDR_DOMAIN, map of_char str, length str))
   \<and> parse_vless_address [] = Some (VLESS_ADDR_DOMAIN, [], 0)"
  by (simp add: parse_vless_address_def parse_ipv4_address_def parse_ipv6_address_def)

theorem parse_vless_address_domain_fallback_witness:
  "parse_vless_address ''example.com''
     = Some (VLESS_ADDR_DOMAIN, [101, 120, 97, 109, 112, 108, 101, 46, 99, 111, 109], 11)"
proof -
  have l: "length ''example.com'' \<le> 255"
    by simp
  have v4: "parse_ipv4_address ''example.com'' = None"
    by code_simp
  have v6: "parse_ipv6_address ''example.com'' = None"
    by code_simp
  have "parse_vless_address ''example.com''
      = Some (VLESS_ADDR_DOMAIN, map of_char ''example.com'', length ''example.com'')"
    using parse_vless_address_domain_fallback [of "''example.com''"] l v4 v6 by blast
  then show ?thesis
    by simp
qed

section \<open>Properties of lwip/lwip_bridge.c\<close>

subsection \<open>Packet input\<close>

lemma take_drop_nths:
  assumes "n + k \<le> length xs"
  shows "take k (drop n xs) = map ((!) xs) [n..<n + k]"
  using assms by (intro nth_equalityI) auto

lemma ihl_no_wrap: "unat (((b :: u8) AND 0x0F) * 4) = 4 * unat (b AND 0x0F)"
proof -
  have "unat (b AND 0x0F) \<le> unat (0x0F :: u8)"
    by (rule word_and_le1 [THEN word_le_nat_alt [THEN iffD1]])
  then have "unat (b AND 0x0F) \<le> 15"
    by simp
  then show ?thesis
    by (simp add: unat_word_ariths)
qed

lemma input_dropped:
  "lwip_bridge_input None len pbuf_ok st = st"
  "len \<le> 0 \<Longrightarrow> lwip_bridge_input data len pbuf_ok st = st"
  "drop_bit 4 (pkt ! 0) AND 0x0F = 4 \<and> len < 20
    \<or> drop_bit 4 (pkt ! 0) AND 0x0F = 6 \<and> len < 40
    \<or> drop_bit 4 (pkt ! 0) AND 0x0F \<noteq> 4 \<and> drop_bit 4 (pkt ! 0) AND 0x0F \<noteq> 6
   \<Longrightarrow> lwip_bridge_input (Some pkt) len pbuf_ok st = st"
  by (auto simp add: lwip_bridge_input_def Let_def split: option.splits)

lemma input_ipv4_udp:
  assumes "drop_bit 4 (pkt ! 0) AND 0x0F = 4" and "20 \<le> len" and "pkt ! 9 = 17"
    and "int (unat ((pkt ! 0 AND 0x0F) * 4)) + 8 \<le> len"
  shows "lwip_bridge_input (Some pkt) len pbuf_ok st =
     hand_to_engine pkt len pbuf_ok
       (st\<lparr>s_current_udp_dst_port :=
             push_bit 8 (ucast (pkt ! (unat ((pkt ! 0 AND 0x0F) * 4) + 2)))
               OR ucast (pkt ! (unat ((pkt ! 0 AND 0x0F) * 4) + 3)),
           s_current_udp_dst_ip := IPADDR_V4 (take 4 (drop 16 pkt))\<rparr>)"
  using assms by (simp add: lwip_bridge_input_def Let_def)

lemma input_ipv6_udp:
  assumes "drop_bit 4 (pkt ! 0) AND 0x0F = 6" and "48 \<le> len" and "pkt ! 6 = 17"
  shows "lwip_bridge_input (Some pkt) len pbuf_ok st =
     hand_to_engine pkt len pbuf_ok
       (st\<lparr>s_current_udp_dst_port := push_bit 8 (ucast (pkt ! 42)) OR ucast (pkt ! 43),
           s_current_udp_dst_ip := IPADDR_V6 (take 16 (drop 24 pkt))\<rparr>)"
  using assms by (simp add: lwip_bridge_input_def Let_def)


text \<open>
  C6. \<open>lwip_bridge_input\<close> returns with the state unchanged, and so without a call of
  the engine, when the data pointer is null, when the length is not positive, and when
  the version nibble is 4 with fewer than 20 bytes, 6 with fewer than 40 bytes, or
  neither 4 nor 6. For an IPv4 packet with protocol 17 and at least IHL + 8 bytes, the
  scratch port becomes the big-endian value of bytes IHL + 2 and IHL + 3 and the scratch
  address becomes bytes 16 to 19, where IHL is four times the low nibble of byte 0. For
  an IPv6 packet with next header 17 and at least 48 bytes, the scratch port becomes the
  big-endian value of bytes 42 and 43 and the scratch address bytes 24 to 39. In both
  cases the packet is handed to the engine after the capture: the engine is called, when
  the pbuf could be allocated, with the new scratch values in place.
\<close>

theorem lwip_bridge_input_capture:
  "lwip_bridge_input None len pbuf_ok st = st
   \<and> (len \<le> 0 \<longrightarrow> lwip_bridge_input data len pbuf_ok st = st)
   \<and> (drop_bit 4 (pkt ! 0) AND 0x0F = 4 \<and> len < 20
        \<or> drop_bit 4 (pkt ! 0) AND 0x0F = 6 \<and> len < 40
        \<or> drop_bit 4 (pkt ! 0) AND 0x0F \<noteq> 4 \<and> drop_bit 4 (pkt ! 0) AND 0x0F \<noteq> 6
      \<longrightarrow> lwip_bridge_input (Some pkt) len pbuf_ok st = st)
   \<and> (drop_bit 4 (pkt ! 0) AND 0x0F = 4 \<and> 20 \<le> len \<and> len \<le> int (length pkt) \<and> pkt ! 9 = 17
        \<and> int (4 * unat (pkt ! 0 AND 0x0F)) + 8 \<le> len
      \<longrightarrow> (let ihl = 4 * unat (pkt ! 0 AND 0x0F);
               st' = lwip_bridge_input (Some pkt) len pbuf_ok st
           in unat (s_current_udp_dst_port st')
                = 256 * unat (pkt ! (ihl + 2)) + unat (pkt ! (ihl + 3))
            \<and> s_current_udp_dst_ip st' = IPADDR_V4 [pkt ! 16, pkt ! 17, pkt ! 18, pkt ! 19]
            \<and> netif_input_calls st' = netif_input_calls st @
                 (if pbuf_ok
                  then [(take (nat (len mod 65536)) pkt, s_current_udp_dst_port st',
                         s_current_udp_dst_ip st')]
                  else [])))
   \<and> (drop_bit 4 (pkt ! 0) AND 0x0F = 6 \<and> 48 \<le> len \<and> len \<le> int (length pkt) \<and> pkt ! 6 = 17
      \<longrightarrow> (let st' = lwip_bridge_input (Some pkt) len pbuf_ok st
           in unat (s_current_udp_dst_port st') = 256 * unat (pkt ! 42) + unat (pkt ! 43)
            \<and> s_current_udp_dst_ip st' = IPADDR_V6 (map ((!) pkt) [24..<40])
            \<and> netif_input_calls st' = netif_input_calls st @
                 (if pbuf_ok
                  then [(take (nat (len mod 65536)) pkt, s_current_udp_dst_port st',
                         s_current_udp_dst_ip st')]
                  else [])))"
proof (intro conjI impI)
  show "lwip_bridge_input None len pbuf_ok st = st"
    by (rule input_dropped)
next
  assume "len \<le> 0"
  then show "lwip_bridge_input data len pbuf_ok st = st"
    by (rule input_dropped)
next
  assume "drop_bit 4 (pkt ! 0) AND 0x0F = 4 \<and> len < 20
        \<or> drop_bit 4 (pkt ! 0) AND 0x0F = 6 \<and> len < 40
        \<or> drop_bit 4 (pkt ! 0) AND 0x0F \<noteq> 4 \<and> drop_bit 4 (pkt ! 0) AND 0x0F \<noteq> 6"
  then show "lwip_bridge_input (Some pkt) len pbuf_ok st = st"
    by (rule input_dropped)
next
  assume a: "drop_bit 4 (pkt ! 0) AND 0x0F = 4 \<and> 20 \<le> len \<and> len \<le> int (length pkt) \<and> pkt ! 9 = 17
        \<and> int (4 * unat (pkt ! 0 AND 0x0F)) + 8 \<le> len"
  then have "20 \<le> length pkt"
    by linarith
  then have ip: "take 4 (drop 16 pkt) = [pkt ! 16, pkt ! 17, pkt ! 18, pkt ! 19]"
    by (simp add: take_drop_nths upt_rec)
  have "lwip_bridge_input (Some pkt) len pbuf_ok st =
     hand_to_engine pkt len pbuf_ok
       (st\<lparr>s_current_udp_dst_port :=
             push_bit 8 (ucast (pkt ! (unat ((pkt ! 0 AND 0x0F) * 4) + 2)))
               OR ucast (pkt ! (unat ((pkt ! 0 AND 0x0F) * 4) + 3)),
           s_current_udp_dst_ip := IPADDR_V4 (take 4 (drop 16 pkt))\<rparr>)"
    using a by (intro input_ipv4_udp) (simp_all add: ihl_no_wrap)
  then show "let ihl = 4 * unat (pkt ! 0 AND 0x0F);
               st' = lwip_bridge_input (Some pkt) len pbuf_ok st
           in unat (s_current_udp_dst_port st')
                = 256 * unat (pkt ! (ihl + 2)) + unat (pkt ! (ihl + 3))
            \<and> s_current_udp_dst_ip st' = IPADDR_V4 [pkt ! 16, pkt ! 17, pkt ! 18, pkt ! 19]
            \<and> netif_input_calls st' = netif_input_calls st @
                 (if pbuf_ok
                  then [(take (nat (len mod 65536)) pkt, s_current_udp_dst_port st',
                         s_current_udp_dst_ip st')]
                  else [])"
    by (simp add: Let_def hand_to_engine_def ihl_no_wrap be16_unat ip)
next
  assume a: "drop_bit 4 (pkt ! 0) AND 0x0F = 6 \<and> 48 \<le> len \<and> len \<le> int (length pkt) \<and> pkt ! 6 = 17"
  then have "40 \<le> length pkt"
    by linarith
  then have ip: "take 16 (drop 24 pkt) = map ((!) pkt) [24..<40]"
    using take_drop_nths [of 24 16 pkt] by simp
  have "lwip_bridge_input (Some pkt) len pbuf_ok st =
     hand_to_engine pkt len pbuf_ok
       (st\<lparr>s_current_udp_dst_port := push_bit 8 (ucast (pkt ! 42)) OR ucast (pkt ! 43),
           s_current_udp_dst_ip := IPADDR_V6 (take 16 (drop 24 pkt))\<rparr>)"
    using a by (intro input_ipv6_udp) simp_all
  then show "let st' = lwip_bridge_input (Some pkt) len pbuf_ok st
           in unat (s_current_udp_dst_port st') = 256 * unat (pkt ! 42) + unat (pkt ! 43)
            \<and> s_current_udp_dst_ip st' = IPADDR_V6 (map ((!) pkt) [24..<40])
            \<and> netif_input_calls st' = netif_input_calls st @
                 (if pbuf_ok
                  then [(take (nat (len mod 65536)) pkt, s_current_udp_dst_port st',
                         s_current_udp_dst_ip st')]
                  else [])"
    by (simp add: Let_def hand_to_engine_def be16_unat ip)
qed


theorem lwip_bridge_input_capture_witness:
  "lwip_bridge_input
       (Some [0x45, 0, 0, 28, 0, 0, 0, 0, 64, 17, 0, 0, 10, 0, 0, 1, 8, 8, 4, 4,
              0xC0, 0x00, 0x00, 0x35, 0, 8, 0, 0]) 28 True
       \<lparr>s_current_udp_dst_port = 0, s_current_udp_dst_ip = IPADDR_V4 [0, 0, 0, 0],
        netif_input_calls = []\<rparr>
     = \<lparr>s_current_udp_dst_port = 53, s_current_udp_dst_ip = IPADDR_V4 [8, 8, 4, 4],
        netif_input_calls =
          [([0x45, 0, 0, 28, 0, 0, 0, 0, 64, 17, 0, 0, 10, 0, 0, 1, 8, 8, 4, 4,
             0xC0, 0x00, 0x00, 0x35, 0, 8, 0, 0], 53, IPADDR_V4 [8, 8, 4, 4])]\<rparr>
   \<and> lwip_bridge_input (Some [0x45, 0, 0, 28, 0, 0, 0, 0, 64, 17]) 10 True
       \<lparr>s_current_udp_dst_port = 0, s_current_udp_dst_ip = IPADDR_V4 [0, 0, 0, 0],
        netif_input_calls = []\<rparr>
     = \<lparr>s_current_udp_dst_port = 0, s_current_udp_dst_ip = IPADDR_V4 [0, 0, 0, 0],
        netif_input_calls = []\<rparr>
   \<and> s_current_udp_dst_port
       (lwip_bridge_input
         (Some ([0x60, 0, 0, 0, 0, 8, 17, 64] @ replicate 15 0 @ [1] @ replicate 15 0 @ [2]
                @ [0xC0, 0x00, 0x01, 0xBB, 0, 8, 0, 0])) 48 True
         \<lparr>s_current_udp_dst_port = 0, s_current_udp_dst_ip = IPADDR_V4 [0, 0, 0, 0],
          netif_input_calls = []\<rparr>)
     = 443"
proof -
  let ?st = "\<lparr>s_current_udp_dst_port = 0, s_current_udp_dst_ip = IPADDR_V4 [0, 0, 0, 0],
        netif_input_calls = []\<rparr>"
  have v4: "lwip_bridge_input
       (Some [0x45, 0, 0, 28, 0, 0, 0, 0, 64, 17, 0, 0, 10, 0, 0, 1, 8, 8, 4, 4,
              0xC0, 0x00, 0x00, 0x35, 0, 8, 0, 0]) 28 True ?st
     = \<lparr>s_current_udp_dst_port = 53, s_current_udp_dst_ip = IPADDR_V4 [8, 8, 4, 4],
        netif_input_calls =
          [([0x45, 0, 0, 28, 0, 0, 0, 0, 64, 17, 0, 0, 10, 0, 0, 1, 8, 8, 4, 4,
             0xC0, 0x00, 0x00, 0x35, 0, 8, 0, 0], 53, IPADDR_V4 [8, 8, 4, 4])]\<rparr>"
    by code_simp
  have v6: "s_current_udp_dst_port
       (lwip_bridge_input
         (Some ([0x60, 0, 0, 0, 0, 8, 17, 64] @ replicate 15 0 @ [1] @ replicate 15 0 @ [2]
                @ [0xC0, 0x00, 0x01, 0xBB, 0, 8, 0, 0])) 48 True ?st)
     = 443"
    by code_simp
  have short: "lwip_bridge_input (Some [0x45, 0, 0, 28, 0, 0, 0, 0, 64, 17]) 10 True ?st = ?st"
    using lwip_bridge_input_capture [where pkt = "[0x45, 0, 0, 28, 0, 0, 0, 0, 64, 17]"
        and len = 10 and pbuf_ok = True and st = ?st]
    by simp
  from v4 short v6 show ?thesis
    by simp
qed

subsection \<open>Shutdown\<close>

lemma tcp_abort_effect:
  "err_calls (tcp_abort p st) = err_calls st @ abort_calls st p"
  "tcp_active_pcbs (tcp_abort p st) = removeAll p (tcp_active_pcbs st)"
  "tcp_tw_pcbs (tcp_abort p st) = removeAll p (tcp_tw_pcbs st)"
  "pcbs (tcp_abort p st) = (pcbs st)(p := None)"
  "s_tcp_err_fn (tcp_abort p st) = s_tcp_err_fn st"
  by (auto simp add: tcp_abort_def tcp_pcb_remove_free_def tcp_err_cb_def abort_calls_def Let_def
      split: option.splits)

lemma abort_calls_cong:
  "pcbs st' q = pcbs st q \<Longrightarrow> s_tcp_err_fn st' = s_tcp_err_fn st \<Longrightarrow> abort_calls st' q = abort_calls st q"
  unfolding abort_calls_def by (auto split: option.splits)

lemma abort_active_effect:
  assumes "distinct (tcp_active_pcbs st)"
  shows "err_calls (abort_active st)
       = err_calls st @ concat (map (abort_calls st) (tcp_active_pcbs st))"
  using assms
proof (induction st rule: abort_active.induct)
  case (1 st)
  show ?case
  proof (cases "tcp_active_pcbs st")
    case Nil
    then show ?thesis
      by (subst abort_active.simps) simp
  next
    case (Cons p ps)
    let ?st = "tcp_abort p st"
    from Cons "1.prems" have p: "p \<notin> set ps" and d: "distinct ps"
      by simp_all
    have act: "tcp_active_pcbs ?st = ps"
      using Cons p by (simp add: tcp_abort_effect)
    have same: "abort_calls ?st q = abort_calls st q" if "q \<in> set ps" for q
    proof -
      from that p have "q \<noteq> p" by auto
      then show ?thesis
        by (intro abort_calls_cong) (simp_all add: tcp_abort_effect)
    qed
    have "err_calls (abort_active ?st)
        = err_calls ?st @ concat (map (abort_calls ?st) (tcp_active_pcbs ?st))"
      using "1.IH" [OF Cons] act d by simp
    also have "\<dots> = err_calls ?st @ concat (map (abort_calls ?st) ps)"
      by (simp only: act)
    also have "map (abort_calls ?st) ps = map (abort_calls st) ps"
      using same by (rule map_cong [OF refl])
    also have "err_calls ?st = err_calls st @ abort_calls st p"
      by (rule tcp_abort_effect)
    finally show ?thesis
      using Cons by (subst abort_active.simps) simp
  qed
qed

lemma tcp_pcb_remove_free_err_calls:
  "err_calls (tcp_pcb_remove_free p st) = err_calls st"
  by (simp add: tcp_pcb_remove_free_def)

lemma free_time_wait_err_calls: "err_calls (free_time_wait st) = err_calls st"
proof (induction st rule: free_time_wait.induct)
  case (1 st)
  show ?case
  proof (cases "tcp_tw_pcbs st")
    case Nil
    then show ?thesis
      by (subst free_time_wait.simps) simp
  next
    case (Cons p ps)
    then show ?thesis
      using "1.IH" [OF Cons]
      by (subst free_time_wait.simps) (simp add: tcp_pcb_remove_free_err_calls)
  qed
qed

lemma lwip_bridge_shutdown_err_calls:
  assumes "distinct (tcp_active_pcbs st)"
  shows "err_calls (lwip_bridge_shutdown st)
       = err_calls st @ concat (map (abort_calls st) (tcp_active_pcbs st))"
  using abort_active_effect [OF assms]
  by (simp add: lwip_bridge_shutdown_def Let_def free_time_wait_err_calls)

lemma set_pcb_effect:
  "err_calls (set_pcb p f st) = err_calls st"
  "s_tcp_err_fn (set_pcb p f st) = s_tcp_err_fn st"
  "tcp_active_pcbs (set_pcb p f st) = tcp_active_pcbs st"
  "tcp_tw_pcbs (set_pcb p f st) = tcp_tw_pcbs st"
  "pcbs (set_pcb p f st) = (pcbs st)(p := map_option f (pcbs st p))"
  by (simp_all add: set_pcb_def)

lemma clear_callbacks_effect:
  "err_calls (clear_callbacks p st) = err_calls st"
  "s_tcp_err_fn (clear_callbacks p st) = s_tcp_err_fn st"
  "tcp_active_pcbs (clear_callbacks p st) = tcp_active_pcbs st"
  "q \<noteq> p \<Longrightarrow> pcbs (clear_callbacks p st) q = pcbs st q"
  "abort_calls (clear_callbacks p st) p = []"
  by (auto simp add: clear_callbacks_def tcp_err_def tcp_sent_def tcp_recv_def tcp_arg_def
      set_pcb_effect abort_calls_def split: option.splits)

lemma lwip_bridge_tcp_close_effect:
  "err_calls (lwip_bridge_tcp_close p outcome st) = err_calls st"
  "s_tcp_err_fn (lwip_bridge_tcp_close p outcome st) = s_tcp_err_fn st"
  "q \<noteq> p \<Longrightarrow> pcbs (lwip_bridge_tcp_close p outcome st) q = pcbs st q"
  "abort_calls (lwip_bridge_tcp_close p outcome st) p = []"
  "tcp_active_pcbs (lwip_bridge_tcp_close p outcome st) = tcp_active_pcbs st
    \<or> tcp_active_pcbs (lwip_bridge_tcp_close p outcome st) = removeAll p (tcp_active_pcbs st)"
proof -
  let ?c = "clear_callbacks p st"
  have unf: "lwip_bridge_tcp_close p outcome st =
      (case tcp_close p outcome ?c of (err, st') \<Rightarrow> if err \<noteq> ERR_OK then tcp_abort p st' else st')"
    by (simp add: lwip_bridge_tcp_close_def clear_callbacks_def Let_def)
  show "err_calls (lwip_bridge_tcp_close p outcome st) = err_calls st"
    unfolding unf
    by (cases outcome)
      (simp_all add: tcp_abort_effect clear_callbacks_effect tcp_pcb_remove_free_def)
  show "s_tcp_err_fn (lwip_bridge_tcp_close p outcome st) = s_tcp_err_fn st"
    unfolding unf
    by (cases outcome)
      (simp_all add: tcp_abort_effect clear_callbacks_effect tcp_pcb_remove_free_def)
  show "pcbs (lwip_bridge_tcp_close p outcome st) q = pcbs st q" if "q \<noteq> p"
    unfolding unf using that
    by (cases outcome)
      (simp_all add: tcp_abort_effect clear_callbacks_effect tcp_pcb_remove_free_def)
  show "abort_calls (lwip_bridge_tcp_close p outcome st) p = []"
  proof (cases outcome)
    case Close_Fails
    then show ?thesis
      unfolding unf by (simp add: abort_calls_def tcp_abort_effect)
  next
    case Close_Frees
    then show ?thesis
      unfolding unf by (simp add: abort_calls_def tcp_pcb_remove_free_def)
  next
    case Close_Stays_Active
    then show ?thesis
      unfolding unf by (simp add: clear_callbacks_effect)
  next
    case Close_Time_Wait
    have "abort_calls (?c\<lparr>tcp_active_pcbs := removeAll p (tcp_active_pcbs ?c),
                 tcp_tw_pcbs := p # tcp_tw_pcbs ?c\<rparr>) p = abort_calls ?c p"
      by (rule abort_calls_cong) simp_all
    with Close_Time_Wait show ?thesis
      unfolding unf by (simp add: clear_callbacks_effect)
  qed
  show "tcp_active_pcbs (lwip_bridge_tcp_close p outcome st) = tcp_active_pcbs st
    \<or> tcp_active_pcbs (lwip_bridge_tcp_close p outcome st) = removeAll p (tcp_active_pcbs st)"
    unfolding unf
    by (cases outcome)
      (simp_all add: tcp_abort_effect clear_callbacks_effect tcp_pcb_remove_free_def)
qed


lemma closes_effect:
  "err_calls (fold (\<lambda>(p, outcome). lwip_bridge_tcp_close p outcome) cs st) = err_calls st
   \<and> s_tcp_err_fn (fold (\<lambda>(p, outcome). lwip_bridge_tcp_close p outcome) cs st) = s_tcp_err_fn st
   \<and> (\<forall>q. q \<notin> fst ` set cs \<longrightarrow>
         pcbs (fold (\<lambda>(p, outcome). lwip_bridge_tcp_close p outcome) cs st) q = pcbs st q)
   \<and> (\<forall>q \<in> fst ` set cs.
         abort_calls (fold (\<lambda>(p, outcome). lwip_bridge_tcp_close p outcome) cs st) q = [])
   \<and> (\<exists>R. R \<subseteq> fst ` set cs
         \<and> tcp_active_pcbs (fold (\<lambda>(p, outcome). lwip_bridge_tcp_close p outcome) cs st)
             = filter (\<lambda>q. q \<notin> R) (tcp_active_pcbs st))"
proof (induction cs arbitrary: st)
  case Nil
  show ?case
    by (auto intro: exI [of _ "{}"])
next
  case (Cons c cs)
  obtain p outcome where c: "c = (p, outcome)"
    by (cases c)
  let ?st1 = "lwip_bridge_tcp_close p outcome st"
  let ?f = "fold (\<lambda>(p, outcome). lwip_bridge_tcp_close p outcome)"
  have fold: "?f (c # cs) st = ?f cs ?st1"
    by (simp add: c)
  note ih = Cons.IH [of ?st1]
  have e: "err_calls (?f cs ?st1) = err_calls st"
    using ih by (simp add: lwip_bridge_tcp_close_effect)
  have r: "s_tcp_err_fn (?f cs ?st1) = s_tcp_err_fn st"
    using ih by (simp add: lwip_bridge_tcp_close_effect)
  have u: "pcbs (?f cs ?st1) q = pcbs st q" if "q \<notin> fst ` set (c # cs)" for q
  proof -
    from that have "q \<noteq> p" "q \<notin> fst ` set cs"
      by (auto simp: c)
    then show ?thesis
      using ih by (simp add: lwip_bridge_tcp_close_effect)
  qed
  have z: "abort_calls (?f cs ?st1) q = []" if "q \<in> fst ` set (c # cs)" for q
  proof (cases "q \<in> fst ` set cs")
    case True
    then show ?thesis
      using ih by blast
  next
    case False
    with that have q: "q = p"
      by (auto simp: c)
    have "pcbs (?f cs ?st1) p = pcbs ?st1 p"
      using ih False q by blast
    moreover have "s_tcp_err_fn (?f cs ?st1) = s_tcp_err_fn ?st1"
      using ih by blast
    ultimately have "abort_calls (?f cs ?st1) p = abort_calls ?st1 p"
      by (rule abort_calls_cong)
    then show ?thesis
      by (simp add: q lwip_bridge_tcp_close_effect)
  qed
  from ih obtain R where R: "R \<subseteq> fst ` set cs"
    "tcp_active_pcbs (?f cs ?st1) = filter (\<lambda>q. q \<notin> R) (tcp_active_pcbs ?st1)"
    by blast
  have "\<exists>R'. R' \<subseteq> fst ` set (c # cs)
      \<and> tcp_active_pcbs (?f cs ?st1) = filter (\<lambda>q. q \<notin> R') (tcp_active_pcbs st)"
    using lwip_bridge_tcp_close_effect(5) [of p outcome st]
  proof
    assume "tcp_active_pcbs ?st1 = tcp_active_pcbs st"
    with R show ?thesis
      by (intro exI [of _ R]) auto
  next
    assume "tcp_active_pcbs ?st1 = removeAll p (tcp_active_pcbs st)"
    with R have "tcp_active_pcbs (?f cs ?st1) = filter (\<lambda>q. q \<notin> insert p R) (tcp_active_pcbs st)"
      by (simp add: removeAll_filter_not_eq conj_commute eq_commute)
    with R(1) show ?thesis
      by (intro exI [of _ "insert p R"]) (auto simp: c)
  qed
  with e r u z show ?case
    unfolding fold by blast
qed


lemma concat_map_filter_singletons:
  assumes "\<And>q. q \<in> set xs \<Longrightarrow> q \<in> C \<Longrightarrow> f q = []"
    and "\<And>q. q \<in> set xs \<Longrightarrow> q \<notin> C \<Longrightarrow> f q = [g q]"
    and "R \<subseteq> C"
  shows "concat (map f (filter (\<lambda>q. q \<notin> R) xs)) = map g (filter (\<lambda>q. q \<notin> C) xs)"
  using assms by (induction xs) auto


text \<open>
  What \<open>tcp_accept_cb\<close> leaves behind for a connection that the relay layer accepts with
  handle \<open>h\<close>: the pcb carries \<open>h\<close> as callback argument and the bridge's error callback.
\<close>

lemma tcp_accept_cb_binds:
  assumes "s_tcp_accept_fn st" and "pcbs st p = Some pcb"
  shows "\<exists>pcb'. pcbs (snd (tcp_accept_cb (Some p) (Some h) st)) p = Some pcb'
           \<and> callback_arg pcb' = Some h \<and> errf pcb'"
  using assms
  by (simp add: tcp_accept_cb_def tcp_err_def tcp_sent_def tcp_recv_def tcp_arg_def
      set_pcb_effect)

text \<open>
  C2. Let the relay layer's error function be registered and let every pcb on the
  engine's active list be a flow bound to an external handle of its own, as
  \<open>tcp_accept_cb\<close> binds it. Let any of these flows then be closed through
  \<open>lwip_bridge_tcp_close\<close>, whatever the engine does with each closed pcb. Then the closes
  and a following \<open>lwip_bridge_shutdown\<close> together deliver exactly one error
  notification for each flow that was not closed, to that flow's handle, each handle
  once, and none for a closed flow: with \<open>N\<close> flows still bound at shutdown, exactly \<open>N\<close>
  notifications. The closes themselves deliver none, so all of them are delivered during
  the shutdown.
\<close>

theorem lwip_bridge_shutdown_notifies_active_flows:
  assumes "s_tcp_err_fn st"
    and "distinct (tcp_active_pcbs st)"
    and "\<forall>p\<in>set (tcp_active_pcbs st).
           \<exists>pcb. pcbs st p = Some pcb \<and> callback_arg pcb = Some (handle_of p) \<and> errf pcb"
    and "inj_on handle_of (set (tcp_active_pcbs st))"
  shows "err_calls (lwip_bridge_shutdown
                     (fold (\<lambda>(p, outcome). lwip_bridge_tcp_close p outcome) cs st))
       = err_calls st @ map (\<lambda>p. (handle_of p, ERR_ABRT))
                          (filter (\<lambda>p. p \<notin> fst ` set cs) (tcp_active_pcbs st))
     \<and> distinct (map handle_of (filter (\<lambda>p. p \<notin> fst ` set cs) (tcp_active_pcbs st)))
     \<and> err_calls (fold (\<lambda>(p, outcome). lwip_bridge_tcp_close p outcome) cs st) = err_calls st"
proof (intro conjI)
  let ?st' = "fold (\<lambda>(p, outcome). lwip_bridge_tcp_close p outcome) cs st"
  let ?C = "fst ` set cs"
  from closes_effect [of cs st] obtain R where
    e: "err_calls ?st' = err_calls st" and r: "s_tcp_err_fn ?st' = s_tcp_err_fn st"
    and u: "\<forall>q. q \<notin> ?C \<longrightarrow> pcbs ?st' q = pcbs st q"
    and z: "\<forall>q \<in> ?C. abort_calls ?st' q = []"
    and R: "R \<subseteq> ?C" "tcp_active_pcbs ?st' = filter (\<lambda>q. q \<notin> R) (tcp_active_pcbs st)"
    by blast
  have d: "distinct (tcp_active_pcbs ?st')"
    using assms(2) R(2) by simp
  have one: "abort_calls ?st' q = [(handle_of q, ERR_ABRT)]"
    if "q \<in> set (tcp_active_pcbs st)" "q \<notin> ?C" for q
  proof -
    from that(2) u r have "abort_calls ?st' q = abort_calls st q"
      by (intro abort_calls_cong) simp_all
    moreover from that(1) assms(3) obtain pcb where
      "pcbs st q = Some pcb" "callback_arg pcb = Some (handle_of q)" "errf pcb"
      by blast
    ultimately show ?thesis
      using assms(1) by (simp add: abort_calls_def)
  qed
  have "err_calls (lwip_bridge_shutdown ?st')
      = err_calls ?st' @ concat (map (abort_calls ?st') (tcp_active_pcbs ?st'))"
    using d by (rule lwip_bridge_shutdown_err_calls)
  also have "concat (map (abort_calls ?st') (tcp_active_pcbs ?st'))
      = map (\<lambda>p. (handle_of p, ERR_ABRT)) (filter (\<lambda>p. p \<notin> ?C) (tcp_active_pcbs st))"
    unfolding R(2) using z one R(1) by (intro concat_map_filter_singletons) auto
  finally show "err_calls (lwip_bridge_shutdown ?st')
       = err_calls st @ map (\<lambda>p. (handle_of p, ERR_ABRT))
                          (filter (\<lambda>p. p \<notin> ?C) (tcp_active_pcbs st))"
    by (simp only: e)
next
  have "inj_on handle_of (set (filter (\<lambda>p. p \<notin> fst ` set cs) (tcp_active_pcbs st)))"
    using assms(4) by (rule inj_on_subset) auto
  then show "distinct (map handle_of (filter (\<lambda>p. p \<notin> fst ` set cs) (tcp_active_pcbs st)))"
    using assms(2) by (simp add: distinct_map)
next
  show "err_calls (fold (\<lambda>(p, outcome). lwip_bridge_tcp_close p outcome) cs st) = err_calls st"
    using closes_effect [of cs st] by blast
qed

theorem lwip_bridge_shutdown_notifies_active_flows_witness:
  "err_calls (lwip_bridge_shutdown
      (lwip_bridge_tcp_close 2 Close_Stays_Active
        \<lparr>s_tcp_accept_fn = True, s_tcp_err_fn = True,
         pcbs = (\<lambda>p. if p = 1 \<or> p = 2 \<or> p = 3 then Some \<lparr>callback_arg = Some (p + 10), recv = True, sent = True, errf = True\<rparr> else None),
         tcp_active_pcbs = [3, 2, 1], tcp_tw_pcbs = [],
         tcp_listen_pcb_v4 = Some 100, tcp_listen_pcb_v6 = Some 101,
         udp_listen_pcb_v4 = Some 102, udp_listen_pcb_v6 = Some 103,
         netif_up = True, err_calls = []\<rparr>))
   = [(13, ERR_ABRT), (11, ERR_ABRT)]"
proof -
  let ?st = "\<lparr>s_tcp_accept_fn = True, s_tcp_err_fn = True,
         pcbs = (\<lambda>p. if p = 1 \<or> p = 2 \<or> p = 3 then Some \<lparr>callback_arg = Some (p + 10), recv = True, sent = True, errf = True\<rparr> else None),
         tcp_active_pcbs = [3, 2, 1], tcp_tw_pcbs = [],
         tcp_listen_pcb_v4 = Some 100, tcp_listen_pcb_v6 = Some 101,
         udp_listen_pcb_v4 = Some 102, udp_listen_pcb_v6 = Some 103,
         netif_up = True, err_calls = []\<rparr>"
  have 1: "s_tcp_err_fn ?st"
    by simp
  have 2: "distinct (tcp_active_pcbs ?st)"
    by simp
  have 3: "\<forall>p\<in>set (tcp_active_pcbs ?st).
           \<exists>pcb. pcbs ?st p = Some pcb \<and> callback_arg pcb = Some ((\<lambda>p. p + 10) p) \<and> errf pcb"
    by simp
  have 4: "inj_on (\<lambda>p. p + 10) (set (tcp_active_pcbs ?st))"
    by (simp add: inj_on_def)
  from lwip_bridge_shutdown_notifies_active_flows [OF 1 2 3 4, of "[(2, Close_Stays_Active)]"]
  show ?thesis
    by simp
qed


end
